theory Spec2Isabelle
  imports Complex_Main "HOL-Library.Log_Nat"
begin

section \<open>JavaScript strings and values\<close>

text \<open>
  A JavaScript string is a sequence of UTF-16 code units. The search box and the
  numeric inputs accept Eastern Arabic-Indic digits (U+0660 .. U+0669) and the Arabic comma
  (U+060C), so a string is modelled as the list of its code units, not as a byte string.
\<close>

type_synonym jstring = "nat list"

definition lit :: "string \<Rightarrow> jstring" where
  "lit s = map of_char s"

text \<open>The set that both \<open>String.prototype.trim\<close> and the regular expression class \<open>\s\<close>
  use: WhiteSpace and LineTerminator of ECMAScript.\<close>

definition js_ws :: "nat \<Rightarrow> bool" where
  "js_ws c \<longleftrightarrow>
     c = 9 \<or> c = 10 \<or> c = 11 \<or> c = 12 \<or> c = 13 \<or> c = 32 \<or> c = 160 \<or> c = 5760 \<or>
     (8192 \<le> c \<and> c \<le> 8202) \<or> c = 8232 \<or> c = 8233 \<or> c = 8239 \<or> c = 8287 \<or>
     c = 12288 \<or> c = 65279"

definition trim :: "jstring \<Rightarrow> jstring" where
  "trim s = rev (dropWhile js_ws (rev (dropWhile js_ws s)))"

text \<open>\<open>toLowerCase\<close>, one code unit at a time: the ASCII capitals, and the Kelvin sign
  (U+212A), which Unicode lower-cases to the ASCII letter \<open>k\<close>. These are the code units
  whose lower case consists of ASCII letters only; every other code unit is left as it is
  (its lower case, when it has one, has a code unit that is not ASCII). Every string that
  the program compares a lower-cased value with (\<open>between\<close>, \<open>datetime\<close>, \<open>select\<close>, the
  suffixes \<open>k m b\<close>) is ASCII, and \<open>toNum\<close> deletes what is neither a digit nor a dot.\<close>

definition lower_unit :: "nat \<Rightarrow> nat" where
  "lower_unit c = (if 65 \<le> c \<and> c \<le> 90 then c + 32 else if c = 8490 then 107 else c)"

definition toLowerCase :: "jstring \<Rightarrow> jstring" where
  "toLowerCase s = map lower_unit s"

text \<open>The class \<open>\d\<close> (without the unicode flag: \<open>0\<close> .. \<open>9\<close> only) and the class
  \<open>[\<dots>]\<close> of the Eastern Arabic-Indic digits.\<close>

definition is_d :: "nat \<Rightarrow> bool" where
  "is_d c \<longleftrightarrow> 48 \<le> c \<and> c \<le> 57"

definition is_arabic_digit :: "nat \<Rightarrow> bool" where
  "is_arabic_digit c \<longleftrightarrow> 1632 \<le> c \<and> c \<le> 1641"

text \<open>The replacement table \<open>map\<close> of \<open>normalizeDigits\<close> and \<open>toNum\<close>: U+0660 + d becomes
  the ASCII digit d.\<close>

definition arabic_to_western :: "nat \<Rightarrow> nat" where
  "arabic_to_western c = (if is_arabic_digit c then c - 1632 + 48 else c)"

text \<open>
  A finite number is a double, kept as the rational that it is exactly (the sign of a zero
  is not kept); NaN and the infinities are constructors of their own because the code
  tests for them.
\<close>

datatype jsnum = NaN | PosInf | NegInf | Fin rat

text \<open>
  \<open>\<lfloor>log\<^sub>2 q\<rfloor>\<close> for a positive rational \<open>q\<close>, computed on integers: for \<open>1 \<le> q\<close> it is
  the bit length of \<open>\<lfloor>q\<rfloor>\<close> less one; for \<open>q < 1\<close> it is \<open>- k\<close> for the least \<open>k\<close> with
  \<open>1 / q \<le> 2 ^ k\<close>, which is the bit length of \<open>\<lceil>1 / q\<rceil> - 1\<close>.
\<close>

definition log2_floor :: "rat \<Rightarrow> int" where
  "log2_floor q =
     (if 1 \<le> q then bitlen \<lfloor>q\<rfloor> - 1 else - bitlen (\<lceil>1 / q\<rceil> - 1))"

text \<open>
  The double nearest to a rational \<open>q \<ge> 0\<close> (IEEE 754 binary64, round to nearest, ties to
  even), which is what a decimal literal and a product of two doubles evaluate to. A double
  in the binade \<open>2 ^ e \<le> q < 2 ^ (e + 1)\<close> is a multiple of \<open>2 ^ (e - 52)\<close>; below
  \<open>2 ^ - 1022\<close> the spacing stays \<open>2 ^ - 1074\<close> (subnormal numbers); a result of \<open>2 ^ 1024\<close>
  or more is \<open>Infinity\<close>.
\<close>

definition round_double :: "rat \<Rightarrow> jsnum" where
  "round_double q =
     (if q = 0 then Fin 0
      else (let p = max (log2_floor q) (- 1022) - 52;
                m = q / (2 powi p);
                n = \<lfloor>m\<rfloor>;
                f = m - of_int n;
                n' = (if 1 / 2 < f \<or> (f = 1 / 2 \<and> odd n) then n + 1 else n);
                v = of_int n' * (2 powi p)
            in if 2 ^ 1024 \<le> v then PosInf else Fin v))"

datatype jsval =
    JUndefined
  | JNull
  | JBool bool
  | JNum jsnum
  | JStr jstring
  | JArr "jsval list"
  | JObj "(jstring \<times> jsval) list"

text \<open>ToBoolean.\<close>

fun truthy :: "jsval \<Rightarrow> bool" where
  "truthy JUndefined = False"
| "truthy JNull = False"
| "truthy (JBool b) = b"
| "truthy (JNum NaN) = False"
| "truthy (JNum (Fin q)) = (q \<noteq> 0)"
| "truthy (JNum _) = True"
| "truthy (JStr s) = (s \<noteq> [])"
| "truthy (JArr _) = True"
| "truthy (JObj _) = True"

text \<open>A property that holds a string or is missing (\<open>undefined\<close> or \<open>null\<close>).\<close>

type_synonym jstr_opt = "jstring option"

fun truthy_str :: "jstr_opt \<Rightarrow> bool" where
  "truthy_str None = False"
| "truthy_str (Some s) = (s \<noteq> [])"

text \<open>\<open>x || ''\<close> for such a property.\<close>

fun or_empty :: "jstr_opt \<Rightarrow> jstring" where
  "or_empty None = []"
| "or_empty (Some s) = s"

section \<open>Filter objects and \<open>sanitizeFilters\<close>\<close>

text \<open>
  A filter object \<open>{ fieldname, operator, value }\<close>. The page builds these with string
  field names and operators; a property can be missing.
\<close>

record jfilter =
  fieldname :: jstr_opt
  operator :: jstr_opt
  val :: jsval

text \<open>
  An entry of the list given to \<open>sanitizeFilters\<close>: a falsy entry, an array
  \<open>[doctype, fieldname, operator, value]\<close> (read at the indices 1, 2 and 3, each
  \<open>undefined\<close> when the array is shorter), or an object with its \<open>fieldname\<close>, its
  \<open>operator\<close> and its own property \<open>value\<close> (\<open>None\<close> when it has no such property).
\<close>

datatype rawfilter =
    RFalsy
  | RTuple jstr_opt jstr_opt jsval
  | RObj jstr_opt jstr_opt "jsval option"

text \<open>The three \<open>const\<close> declarations at the head of the loop body.\<close>

fun raw_fieldname :: "rawfilter \<Rightarrow> jstr_opt" where
  "raw_fieldname RFalsy = None"
| "raw_fieldname (RTuple f _ _) = f"
| "raw_fieldname (RObj f _ _) = Some (or_empty f)"

fun raw_operator :: "rawfilter \<Rightarrow> jstr_opt" where
  "raw_operator RFalsy = None"
| "raw_operator (RTuple _ op _) = op"
| "raw_operator (RObj _ op _) = Some (or_empty op)"

fun raw_value :: "rawfilter \<Rightarrow> jsval" where
  "raw_value RFalsy = JUndefined"
| "raw_value (RTuple _ _ v) = v"
| "raw_value (RObj _ _ None) = JUndefined"
| "raw_value (RObj _ _ (Some v)) = v"

text \<open>\<open>value === null || value === undefined || value === ''\<close>.\<close>

fun empty_value :: "jsval \<Rightarrow> bool" where
  "empty_value JNull = True"
| "empty_value JUndefined = True"
| "empty_value (JStr s) = (s = [])"
| "empty_value _ = False"

text \<open>\<open>x == null\<close>: null or undefined.\<close>

fun nullish :: "jsval \<Rightarrow> bool" where
  "nullish JNull = True"
| "nullish JUndefined = True"
| "nullish _ = False"

text \<open>\<open>!Array.isArray(value) || value.length !== 2 || value[0] == null || value[1] == null\<close>.\<close>

fun bad_range :: "jsval \<Rightarrow> bool" where
  "bad_range (JArr [a, b]) = (nullish a \<or> nullish b)"
| "bad_range _ = True"

text \<open>\<open>String(operator).toLowerCase() === 'between'\<close>.\<close>

definition is_between :: "jstr_opt \<Rightarrow> bool" where
  "is_between op \<longleftrightarrow> toLowerCase (or_empty op) = lit ''between''"

fun sanitizeFilters :: "rawfilter list \<Rightarrow> jfilter list" where
  "sanitizeFilters [] = []"
| "sanitizeFilters (f # arr) =
     (if f = RFalsy then sanitizeFilters arr
      else if \<not> truthy_str (raw_fieldname f) \<or> \<not> truthy_str (raw_operator f)
        then sanitizeFilters arr
      else if empty_value (raw_value f) then sanitizeFilters arr
      else if is_between (raw_operator f) \<and> bad_range (raw_value f) then sanitizeFilters arr
      else \<lparr>fieldname = raw_fieldname f, operator = raw_operator f, val = raw_value f\<rparr>
             # sanitizeFilters arr)"

text \<open>
  The rule of the specification, in its words: an entry is retained when it has a
  non-empty fieldname and operator, its value is not null, undefined or the empty string
  unless the operator is the presence check \<open>is\<close>, and, for the operator \<open>between\<close>, the
  value is a two-element array with both elements non-null.
\<close>

definition spec_retains :: "rawfilter \<Rightarrow> bool" where
  "spec_retains f \<longleftrightarrow>
     truthy_str (raw_fieldname f) \<and> truthy_str (raw_operator f) \<and>
     (\<not> empty_value (raw_value f) \<or> raw_operator f = Some (lit ''is'')) \<and>
     (\<not> is_between (raw_operator f) \<or> \<not> bad_range (raw_value f))"

text \<open>What the code retains: the same without the exemption of \<open>is\<close>.\<close>

definition retains :: "rawfilter \<Rightarrow> bool" where
  "retains f \<longleftrightarrow>
     truthy_str (raw_fieldname f) \<and> truthy_str (raw_operator f) \<and>
     \<not> empty_value (raw_value f) \<and>
     (\<not> is_between (raw_operator f) \<or> \<not> bad_range (raw_value f))"

definition as_filter :: "rawfilter \<Rightarrow> jfilter" where
  "as_filter f = \<lparr>fieldname = raw_fieldname f, operator = raw_operator f, val = raw_value f\<rparr>"

section \<open>The page state\<close>

text \<open>
  What a form field or a draft property holds: a text, \<open>null\<close>, or nothing
  (\<open>undefined\<close>). The filter state of the page keeps texts; numbers come into being only
  in \<open>toNum\<close>.
\<close>

datatype jtext = Undefined | Null | Text jstring

fun truthy_text :: "jtext \<Rightarrow> bool" where
  "truthy_text (Text s) = (s \<noteq> [])"
| "truthy_text _ = False"

text \<open>\<open>x || ''\<close> and \<open>x ?? ''\<close> for such a value: the same text in both cases.\<close>

fun text_or_empty :: "jtext \<Rightarrow> jstring" where
  "text_or_empty (Text s) = s"
| "text_or_empty _ = []"

text \<open>A filter value from a field: \<open>null\<close> and \<open>undefined\<close> stay what they are.\<close>

fun text_val :: "jtext \<Rightarrow> jsval" where
  "text_val (Text s) = JStr s"
| "text_val Null = JNull"
| "text_val Undefined = JUndefined"

text \<open>The reactive object \<open>ui\<close>, shared by the page, the quick filter bar and the drawer.\<close>

record ui_state =
  ui_search :: jtext
  ui_status :: jtext
  ui_stage :: jtext
  ui_project :: jtext
  ui_owner :: jtext
  ui_last_contacted_from :: jtext
  ui_last_contacted_to :: jtext
  ui_location :: jtext
  ui_space_min :: jtext
  ui_space_max :: jtext
  ui_budget_min :: jtext
  ui_budget_max :: jtext
  ui_lead_source :: jtext
  ui_lead_origin :: jtext
  ui_lead_type :: jtext
  ui_priority :: jtext
  ui_follow_up :: jtext

text \<open>The object as the page declares it: the properties that the declaration lists are
  empty texts, the others (\<open>search\<close>, \<open>owner\<close>, \<open>priority\<close>, \<open>follow_up\<close>) do not exist yet.\<close>

definition initial_ui :: ui_state where
  "initial_ui =
     \<lparr>ui_search = Undefined, ui_status = Text [], ui_stage = Text [], ui_project = Text [],
      ui_owner = Undefined, ui_last_contacted_from = Text [], ui_last_contacted_to = Text [],
      ui_location = Text [], ui_space_min = Text [], ui_space_max = Text [],
      ui_budget_min = Text [], ui_budget_max = Text [], ui_lead_source = Text [],
      ui_lead_origin = Text [], ui_lead_type = Text [], ui_priority = Undefined,
      ui_follow_up = Undefined\<rparr>"

record page =
  ui :: ui_state
  loadMore :: nat
  updatedPageCount :: nat
  showLeadModal :: bool
  showFilters :: bool

text \<open>A field of the document type's meta data, as \<open>getLeadFields()\<close> lists them.\<close>

record docfield =
  df_fieldname :: jstring
  df_fieldtype :: jstr_opt
  df_options :: jstr_opt

definition getLeadFieldMeta :: "docfield list \<Rightarrow> jstring \<Rightarrow> docfield option" where
  "getLeadFieldMeta meta name = find (\<lambda>f. df_fieldname f = name) meta"

definition PROJECT_FIELD :: "docfield list \<Rightarrow> jstring" where
  "PROJECT_FIELD meta =
     (if getLeadFieldMeta meta (lit ''real_estate_project'') \<noteq> None
        then lit ''real_estate_project''
      else if getLeadFieldMeta meta (lit ''project'') \<noteq> None then lit ''project''
      else lit ''real_estate_project'')"

text \<open>\<open>for (const f of candidates) if (getLeadFieldMeta(f)) return f\<close>, then the default.\<close>

fun first_candidate :: "docfield list \<Rightarrow> jstring list \<Rightarrow> jstring \<Rightarrow> jstring" where
  "first_candidate meta [] dflt = dflt"
| "first_candidate meta (c # cs) dflt =
     (if getLeadFieldMeta meta c \<noteq> None then c else first_candidate meta cs dflt)"

definition LOCATION_FIELD :: "docfield list \<Rightarrow> jstring" where
  "LOCATION_FIELD meta =
     first_candidate meta
       [lit ''territory'', lit ''location'', lit ''crm_location'', lit ''lead_territory'']
       (lit ''territory'')"

definition SPACE_FIELD :: "docfield list \<Rightarrow> jstring" where
  "SPACE_FIELD meta =
     first_candidate meta
       [lit ''space'', lit ''area'', lit ''unit_area'', lit ''property_space'',
        lit ''required_space'']
       (lit ''space'')"

definition BUDGET_FIELD :: "docfield list \<Rightarrow> jstring" where
  "BUDGET_FIELD meta =
     first_candidate meta
       [lit ''budget'', lit ''expected_budget'', lit ''max_budget'', lit ''price'',
        lit ''estimated_budget'']
       (lit ''budget'')"

definition SOURCE_FIELD :: "docfield list \<Rightarrow> jstring" where
  "SOURCE_FIELD meta =
     (if getLeadFieldMeta meta (lit ''lead_source'') \<noteq> None then lit ''lead_source''
      else if getLeadFieldMeta meta (lit ''source'') \<noteq> None then lit ''source''
      else lit ''lead_source'')"

text \<open>The first meta field whose name is one of the candidates, else a Datetime field
  \<open>last_contacted_on\<close>.\<close>

definition LAST_CONTACT_FIELD :: "docfield list \<Rightarrow> docfield" where
  "LAST_CONTACT_FIELD meta =
     (case find (\<lambda>f. df_fieldname f \<in> set [lit ''last_contacted_on'', lit ''last_contacted'',
                                             lit ''last_contact_date'', lit ''last_contact''])
             meta of
        Some f \<Rightarrow> f
      | None \<Rightarrow> \<lparr>df_fieldname = lit ''last_contacted_on'',
                  df_fieldtype = Some (lit ''Datetime''), df_options = None\<rparr>)"

section \<open>The list controller and \<open>applyFilters\<close>\<close>

text \<open>A wire tuple \<open>[doctype, fieldname, operator, value]\<close>.\<close>

record wire =
  w_doctype :: jstring
  w_fieldname :: jstring
  w_operator :: jstring
  w_value :: jsval

text \<open>
  The list controller (\<open>viewControls.value\<close>) lives in a component of its own. The page
  first asks which methods it has (\<open>typeof vc.setFilters === 'function'\<close>), so the model
  of a controller is the set of methods it has, and what the page does to it is the list
  of the calls it makes.
\<close>

record controller =
  has_setFilters :: bool
  has_applyFilter :: bool
  has_clearFilters :: bool
  has_reload :: bool

datatype vc_call =
    SetFilters "wire list"
  | ApplyFilter "wire list" bool
  | ClearFilters
  | Reload

text \<open>The loop of \<open>applyFilters\<close> that builds \<open>tuples\<close>.\<close>

definition DOC :: jstring where
  "DOC = lit ''CRM Lead''"

definition wire_operator :: "jstr_opt \<Rightarrow> jstring" where
  "wire_operator op = toLowerCase (if truthy_str op then or_empty op else lit ''='')"

definition wire_value :: "jfilter \<Rightarrow> jsval" where
  "wire_value f =
     (if fieldname f = Some (lit ''delayed'')
        then (if truthy (val f) then JNum (Fin 1) else JNum (Fin 0))
      else val f)"

fun wire_tuples :: "jfilter list \<Rightarrow> wire list" where
  "wire_tuples [] = []"
| "wire_tuples (f # filters) =
     (if \<not> truthy_str (fieldname f) \<or> empty_value (val f) then wire_tuples filters
      else \<lparr>w_doctype = DOC, w_fieldname = or_empty (fieldname f),
             w_operator = wire_operator (operator f), w_value = wire_value f\<rparr>
             # wire_tuples filters)"

text \<open>
  \<open>applyFilters(filters, replace)\<close>: nothing without a controller; else the pagination is
  reset, and the controller is told to clear (no tuple) or to take the tuples.
\<close>

definition applyFilters ::
  "jfilter list \<Rightarrow> bool \<Rightarrow> controller option \<Rightarrow> page \<Rightarrow> page \<times> vc_call list" where
  "applyFilters filters replace vc p =
     (case vc of
        None \<Rightarrow> (p, [])
      | Some c \<Rightarrow>
          (let tuples = wire_tuples filters;
               p' = p\<lparr>loadMore := 1, updatedPageCount := 20\<rparr>
           in if tuples = []
                then (p', if has_clearFilters c
                            then ClearFilters # (if has_reload c then [Reload] else [])
                          else [])
              else (p', if has_setFilters c then [SetFilters tuples]
                        else if has_applyFilter c then [ApplyFilter tuples replace]
                        else [])))"

text \<open>The tuples that a call hands to the controller.\<close>

fun call_tuples :: "vc_call \<Rightarrow> wire list" where
  "call_tuples (SetFilters ts) = ts"
| "call_tuples (ApplyFilter ts _) = ts"
| "call_tuples _ = []"

text \<open>
  Modelled from the spec: the effect of the list controller's methods on its active
  filter list (\<open>ViewControls.vue\<close> is not among the sources). \<open>setFilters\<close> always
  replaces the filters; \<open>applyFilter\<close> replaces them when its \<open>replace\<close> flag is set and
  adds to them otherwise; \<open>clearFilters\<close> removes them; \<open>reload\<close> only fetches.
\<close>

fun controller_effect :: "wire list \<Rightarrow> vc_call \<Rightarrow> wire list" where
  "controller_effect active (SetFilters ts) = ts"
| "controller_effect active (ApplyFilter ts True) = ts"
| "controller_effect active (ApplyFilter ts False) = active @ ts"
| "controller_effect active ClearFilters = []"
| "controller_effect active Reload = active"

definition run_calls :: "wire list \<Rightarrow> vc_call list \<Rightarrow> wire list" where
  "run_calls active calls = foldl controller_effect active calls"

section \<open>The route query\<close>

record query =
  q_status :: jstr_opt
  q_type :: jstr_opt
  q_priority :: jstr_opt
  q_follow_up :: jstr_opt
  q_delayed :: jsval
  q_project :: jstr_opt
  q_user :: jstr_opt
  q_create :: jstr_opt

definition eq_filter :: "jstring \<Rightarrow> jsval \<Rightarrow> jfilter" where
  "eq_filter name v = \<lparr>fieldname = Some name, operator = Some (lit ''=''), val = v\<rparr>"

text \<open>\<open>query.delayed === '1' || query.delayed === 1 || query.delayed === true ||
  query.delayed === 'true'\<close>.\<close>

definition delayedValue :: "jsval \<Rightarrow> bool" where
  "delayedValue d \<longleftrightarrow>
     d = JStr (lit ''1'') \<or> d = JNum (Fin 1) \<or> d = JBool True \<or> d = JStr (lit ''true'')"

text \<open>The array \<open>F\<close> of \<open>applyQueryFilters\<close>.\<close>

definition query_F :: "docfield list \<Rightarrow> query \<Rightarrow> jfilter list" where
  "query_F meta q =
     (if truthy_str (q_status q)
        then [eq_filter (lit ''status'') (JStr (or_empty (q_status q)))] else []) @
     (if truthy_str (q_type q)
        then [eq_filter (lit ''lead_type'') (JStr (or_empty (q_type q)))] else []) @
     (if truthy_str (q_priority q)
        then [eq_filter (lit ''priority'') (JStr (or_empty (q_priority q)))] else []) @
     (if \<not> empty_value (q_delayed q)
        then [eq_filter (lit ''delayed'')
                (if delayedValue (q_delayed q) then JNum (Fin 1) else JNum (Fin 0))]
      else []) @
     (if truthy_str (q_project q)
        then [eq_filter (PROJECT_FIELD meta) (JStr (or_empty (q_project q)))] else []) @
     (if truthy_str (q_user q)
        then [eq_filter (lit ''lead_owner'') (JStr (or_empty (q_user q)))] else [])"

text \<open>The assignments to \<open>ui\<close> at the head of \<open>applyQueryFilters\<close>.\<close>

definition query_ui :: "query \<Rightarrow> ui_state \<Rightarrow> ui_state" where
  "query_ui q u =
     (let u1 = u\<lparr>ui_status := Text (or_empty (q_status q)),
                 ui_lead_type := Text (or_empty (q_type q)),
                 ui_priority := Text (or_empty (q_priority q)),
                 ui_follow_up := Text (or_empty (q_follow_up q))\<rparr>;
          u2 = (if truthy_str (q_project q)
                  then u1\<lparr>ui_project := Text (or_empty (q_project q))\<rparr> else u1)
      in if truthy_str (q_user q) then u2\<lparr>ui_owner := Text (or_empty (q_user q))\<rparr> else u2)"

definition applyQueryFilters ::
  "docfield list \<Rightarrow> query \<Rightarrow> controller option \<Rightarrow> page \<Rightarrow> page \<times> vc_call list" where
  "applyQueryFilters meta q vc p =
     (let p1 = p\<lparr>ui := query_ui q (ui p)\<rparr>;
          F = query_F meta q;
          p2 = (if truthy_str (q_create q) then p1\<lparr>showLeadModal := True\<rparr> else p1)
      in if F \<noteq> [] then applyFilters F True vc p2 else applyFilters [] True vc p2)"

section \<open>The free-text search of the quick filter bar\<close>

text \<open>\<open>String(s).replace(/[\<dots>]/g, d => map[d]).trim()\<close>.\<close>

definition normalizeDigits :: "jstring \<Rightarrow> jstring" where
  "normalizeDigits s = trim (map arabic_to_western s)"

text \<open>One code unit of the class \<open>[\s\d\<dots>+\-()]\<close>.\<close>

definition phone_unit :: "nat \<Rightarrow> bool" where
  "phone_unit c \<longleftrightarrow>
     js_ws c \<or> is_d c \<or> is_arabic_digit c \<or> c = 43 \<or> c = 45 \<or> c = 40 \<or> c = 41"

text \<open>The test \<open>/^[\<dots>]+$/\<close>: at least one code unit, all of the class.\<close>

definition isDigits :: "jstring \<Rightarrow> bool" where
  "isDigits s \<longleftrightarrow> s \<noteq> [] \<and> list_all phone_unit s"

text \<open>An entry of the payload of the event \<open>like-change\<close>.\<close>

record like_entry =
  lk_fieldname :: jstring
  lk_value :: jstring

text \<open>
  \<open>runSearchLike\<close>: the payload that it emits with \<open>like-change\<close>. (The calls that it
  then makes on the global controller handle are wrapped in \<open>try\<close> and come after the
  \<open>emit\<close>; they do not change the payload.)
\<close>

definition runSearchLike :: "jtext \<Rightarrow> like_entry list" where
  "runSearchLike search =
     (let raw = trim (text_or_empty search) in
      if raw = [] then []
      else if isDigits raw
        then (let q = normalizeDigits raw in
              [\<lparr>lk_fieldname = lit ''mobile_no'', lk_value = q\<rparr>,
               \<lparr>lk_fieldname = lit ''phone'', lk_value = q\<rparr>,
               \<lparr>lk_fieldname = lit ''other_phone'', lk_value = q\<rparr>])
      else [\<lparr>lk_fieldname = lit ''first_name'', lk_value = raw\<rparr>])"

section \<open>\<open>toNum\<close>\<close>

text \<open>The value of a string of decimal digits.\<close>

definition digits_value :: "jstring \<Rightarrow> nat" where
  "digits_value s = foldl (\<lambda>a c. 10 * a + (c - 48)) 0 s"

text \<open>
  \<open>Number(s)\<close> for a non-empty string of digits and dots, the only strings that \<open>toNum\<close>
  gives it: digits, optionally a dot and digits, with a digit on at least one side of the
  dot, evaluate to the double nearest to their decimal value (the engines round a literal
  of any length correctly; the language allows them to cut it after twenty significant
  digits); anything else is \<open>NaN\<close>.
\<close>

definition Number_of :: "jstring \<Rightarrow> jsnum" where
  "Number_of s =
     (let ip = takeWhile is_d s; rest = dropWhile is_d s in
      if rest = [] then round_double (of_nat (digits_value ip))
      else if hd rest \<noteq> 46 \<or> \<not> list_all is_d (tl rest) then NaN
      else if ip = [] \<and> tl rest = [] then NaN
      else round_double
             (of_nat (digits_value ip) + of_nat (digits_value (tl rest)) / 10 ^ length (tl rest)))"

text \<open>\<open>n * mult\<close> for a finite \<open>n \<ge> 0\<close> and a positive double \<open>mult\<close>: the double nearest to
  the product.\<close>

fun times_num :: "jsnum \<Rightarrow> rat \<Rightarrow> jsnum" where
  "times_num (Fin q) m = round_double (q * m)"
| "times_num n m = n"

text \<open>\<open>s.endsWith(c)\<close> for a single code unit.\<close>

definition endsWith :: "jstring \<Rightarrow> nat \<Rightarrow> bool" where
  "endsWith s c \<longleftrightarrow> s \<noteq> [] \<and> last s = c"

text \<open>The string after the replacements of digits, whitespace and separators.\<close>

definition toNum_clean :: "jstring \<Rightarrow> jstring" where
  "toNum_clean v =
     filter (\<lambda>c. c \<noteq> 44 \<and> c \<noteq> 1548)
       (filter (\<lambda>c. \<not> js_ws c) (map arabic_to_western (toLowerCase (trim v))))"

text \<open>The multiplier and the string without its suffix.\<close>

definition toNum_suffix :: "jstring \<Rightarrow> rat \<times> jstring" where
  "toNum_suffix s =
     (if endsWith s 107 then (1000, butlast s)
      else if endsWith s 109 then (1000000, butlast s)
      else if endsWith s 98 then (1000000000, butlast s)
      else (1, s))"

text \<open>\<open>toNum\<close>; \<open>None\<close> is its result \<open>null\<close>.\<close>

definition toNum :: "jtext \<Rightarrow> jsnum option" where
  "toNum v =
     (case v of
        Undefined \<Rightarrow> None
      | Null \<Rightarrow> None
      | Text t \<Rightarrow>
          if t = [] then None
          else (let (mult, s) = toNum_suffix (toNum_clean t);
                    s' = filter (\<lambda>c. is_d c \<or> c = 46) s
                in if s' = [] then None
                   else (case Number_of s' of
                           Fin n \<Rightarrow> Some (times_num (Fin n) mult)
                         | _ \<Rightarrow> None)))"

text \<open>
  The specification of \<open>toNum\<close>, in its own words, speaks of input that is parseable and
  input that is not. The parseable input that it describes is written down here, to be
  compared with what \<open>toNum\<close> does: after trimming and lower-casing, and without one
  final suffix \<open>k\<close>, \<open>m\<close> or \<open>b\<close>, the text consists of digits (Western or Eastern
  Arabic-Indic), thousands separators (comma or Arabic comma) and at most one decimal
  point, and has a digit.
\<close>

definition spec_parseable :: "jstring \<Rightarrow> bool" where
  "spec_parseable v \<longleftrightarrow>
     (let t = toLowerCase (trim v);
          body = (if endsWith t 107 \<or> endsWith t 109 \<or> endsWith t 98 then butlast t else t)
      in list_ex (\<lambda>c. is_d c \<or> is_arabic_digit c) body \<and>
         list_all (\<lambda>c. is_d c \<or> is_arabic_digit c \<or> c = 44 \<or> c = 1548 \<or> c = 46) body \<and>
         length (filter (\<lambda>c. c = 46) body) \<le> 1)"

section \<open>The drawer: \<open>applyFiltersFromPanel\<close>\<close>

text \<open>The draft object that the drawer emits: a property is a text, \<open>null\<close> or missing.\<close>

type_synonym draft = "jstring \<Rightarrow> jtext"

fun firstKey :: "draft \<Rightarrow> jstring list \<Rightarrow> jtext \<Rightarrow> jtext" where
  "firstKey obj [] fallback = fallback"
| "firstKey obj (k # keys) fallback =
     (if obj k \<noteq> Undefined \<and> obj k \<noteq> Text [] then obj k else firstKey obj keys fallback)"

text \<open>The \<open>Object.assign(ui, {\<dots>})\<close> at the head of \<open>applyFiltersFromPanel\<close>.\<close>

definition panel_ui :: "draft \<Rightarrow> ui_state \<Rightarrow> ui_state" where
  "panel_ui d u =
     u\<lparr>ui_status := firstKey d [lit ''status''] (Text []),
       ui_project := firstKey d [lit ''project''] (Text []),
       ui_location := firstKey d [lit ''territory'', lit ''location'', lit ''crm_location'',
                                  lit ''lead_territory''] (Text []),
       ui_last_contacted_from := firstKey d [lit ''last_contacted_from'', lit ''lastFrom'',
                                             lit ''from_date''] (Text []),
       ui_last_contacted_to := firstKey d [lit ''last_contacted_to'', lit ''lastTo'',
                                           lit ''to_date''] (Text []),
       ui_space_min := firstKey d [lit ''space_min'', lit ''spaceFrom'', lit ''min_space'',
                                   lit ''minSpace'', lit ''area_min'', lit ''min_area'']
                         (ui_space_min u),
       ui_space_max := firstKey d [lit ''space_max'', lit ''spaceTo'', lit ''max_space'',
                                   lit ''maxSpace'', lit ''area_max'', lit ''max_area'']
                         (ui_space_max u),
       ui_budget_min := firstKey d [lit ''budget_min'', lit ''budgetFrom'', lit ''min_budget'',
                                    lit ''minBudget'', lit ''price_min'', lit ''min_price'',
                                    lit ''expected_budget_min''] (ui_budget_min u),
       ui_budget_max := firstKey d [lit ''budget_max'', lit ''budgetTo'', lit ''max_budget'',
                                    lit ''maxBudget'', lit ''price_max'', lit ''max_price'',
                                    lit ''expected_budget_max''] (ui_budget_max u),
       ui_lead_source := firstKey d [lit ''lead_source'', lit ''source''] (Text []),
       ui_lead_origin := firstKey d [lit ''lead_origin'', lit ''origin''] (Text []),
       ui_lead_type := firstKey d [lit ''lead_type'', lit ''type''] (Text [])\<rparr>"

definition op_filter :: "jstring \<Rightarrow> string \<Rightarrow> jsval \<Rightarrow> jfilter" where
  "op_filter name op v = \<lparr>fieldname = Some name, operator = Some (lit op), val = v\<rparr>"

text \<open>\<open>if (x) F.push({ fieldname, operator: '=', value: x })\<close>.\<close>

definition push_eq :: "jtext \<Rightarrow> jstring \<Rightarrow> jfilter list" where
  "push_eq x name = (if truthy_text x then [op_filter name ''='' (text_val x)] else [])"

text \<open>\<open>if (n !== null) F.push({ fieldname, operator, value: n })\<close>.\<close>

definition push_num :: "jsnum option \<Rightarrow> jstring \<Rightarrow> string \<Rightarrow> jfilter list" where
  "push_num n name op = (case n of None \<Rightarrow> [] | Some x \<Rightarrow> [op_filter name op (JNum x)])"

text \<open>The upper bound of the date range in the drawer.\<close>

definition isDT :: "docfield \<Rightarrow> bool" where
  "isDT f \<longleftrightarrow> toLowerCase (or_empty (df_fieldtype f)) = lit ''datetime''"

definition end_of_day :: "jstring \<Rightarrow> jstring" where
  "end_of_day t = t @ lit '' 23:59:59''"

text \<open>The array \<open>F\<close> of \<open>applyFiltersFromPanel\<close>, from the \<open>ui\<close> already assigned.\<close>

definition panel_F :: "docfield list \<Rightarrow> ui_state \<Rightarrow> jfilter list" where
  "panel_F meta u =
     push_eq (ui_status u) (lit ''status'') @
     push_eq (ui_project u) (PROJECT_FIELD meta) @
     push_eq (ui_location u) (LOCATION_FIELD meta) @
     push_eq (ui_lead_source u) (SOURCE_FIELD meta) @
     push_eq (ui_lead_origin u) (lit ''lead_origin'') @
     push_eq (ui_lead_type u) (lit ''lead_type'') @
     (if truthy_text (ui_last_contacted_from u)
        then [op_filter (df_fieldname (LAST_CONTACT_FIELD meta)) ''>=''
                (text_val (ui_last_contacted_from u))]
      else []) @
     (if truthy_text (ui_last_contacted_to u)
        then [op_filter (df_fieldname (LAST_CONTACT_FIELD meta)) ''<=''
                (if isDT (LAST_CONTACT_FIELD meta)
                   then JStr (end_of_day (text_or_empty (ui_last_contacted_to u)))
                 else text_val (ui_last_contacted_to u))]
      else []) @
     push_num (toNum (ui_budget_min u)) (BUDGET_FIELD meta) ''>='' @
     push_num (toNum (ui_budget_max u)) (BUDGET_FIELD meta) ''<='' @
     push_num (toNum (ui_space_min u)) (SPACE_FIELD meta) ''>='' @
     push_num (toNum (ui_space_max u)) (SPACE_FIELD meta) ''<=''"

definition applyFiltersFromPanel ::
  "docfield list \<Rightarrow> draft \<Rightarrow> controller option \<Rightarrow> page \<Rightarrow> page \<times> vc_call list" where
  "applyFiltersFromPanel meta d vc p =
     (let p1 = p\<lparr>ui := panel_ui d (ui p)\<rparr>;
          (p2, calls) = applyFilters (panel_F meta (ui p1)) False vc p1
      in (p2\<lparr>showFilters := False\<rparr>, calls))"

section \<open>The quick filter bar: \<open>buildFiltersPayload\<close>\<close>

text \<open>A catalog entry \<open>{ label, value, color }\<close>.\<close>

record catalog_entry =
  ce_label :: jstring
  ce_value :: jstring
  ce_color :: jstr_opt

text \<open>An item given to \<open>normalizeOptions\<close>: a string, or an object with the optional
  properties \<open>label\<close>, \<open>value\<close>, \<open>name\<close> and \<open>color\<close>.\<close>

datatype opt_item =
    ItemText jstring
  | ItemObj jstr_opt jstr_opt jstr_opt jstr_opt

text \<open>\<open>a ?? b ?? \<dots> ?? ''\<close>.\<close>

fun coalesce :: "jstr_opt list \<Rightarrow> jstring" where
  "coalesce [] = []"
| "coalesce (None # xs) = coalesce xs"
| "coalesce (Some s # xs) = s"

fun item_label :: "opt_item \<Rightarrow> jstring" where
  "item_label (ItemText s) = s"
| "item_label (ItemObj l v n c) = coalesce [l, v, n]"

fun item_value :: "opt_item \<Rightarrow> jstring" where
  "item_value (ItemText s) = s"
| "item_value (ItemObj l v n c) = coalesce [v, n, l]"

fun item_color :: "opt_item \<Rightarrow> jstr_opt" where
  "item_color (ItemText s) = None"
| "item_color (ItemObj l v n c) = c"

text \<open>The loop of \<open>normalizeOptions\<close>, with its \<open>out\<close> and its set \<open>seen\<close>.\<close>

fun normalizeOptions_loop ::
  "opt_item list \<Rightarrow> catalog_entry list \<Rightarrow> jstring set \<Rightarrow> catalog_entry list" where
  "normalizeOptions_loop [] out seen = out"
| "normalizeOptions_loop (it # arr) out seen =
     (if item_value it = [] \<or> item_value it \<in> seen then normalizeOptions_loop arr out seen
      else normalizeOptions_loop arr
             (out @ [\<lparr>ce_label = item_label it, ce_value = item_value it,
                       ce_color = item_color it\<rparr>])
             (insert (item_value it) seen))"

definition normalizeOptions :: "opt_item list \<Rightarrow> catalog_entry list" where
  "normalizeOptions arr = normalizeOptions_loop arr [] {}"

text \<open>The props of the bar that name fields, and the rest of what
  \<open>buildFiltersPayload\<close> reads: the project options and the session user.\<close>

record bar_props =
  statusField :: jstring
  projectField :: jstring
  ownerField :: jstring
  lastContactField :: jstring

text \<open>The getter of the computed \<open>owner\<close>: \<open>ui.value.owner || 'all'\<close>.\<close>

definition owner_of :: "ui_state \<Rightarrow> jstring" where
  "owner_of u = (if truthy_text (ui_owner u) then text_or_empty (ui_owner u) else lit ''all'')"

definition MAX_LEN :: nat where
  "MAX_LEN = 300"

definition owner_part :: "bar_props \<Rightarrow> jstr_opt \<Rightarrow> ui_state \<Rightarrow> jfilter list" where
  "owner_part props me u =
     (if owner_of u = lit ''me'' \<and> truthy_str me
        then [op_filter (ownerField props) ''='' (JStr (or_empty me))]
      else if owner_of u = lit ''unassigned''
        then [op_filter (lit ''_assign'') ''is'' (JStr (lit ''not set''))]
      else [])"

definition status_part :: "bar_props \<Rightarrow> ui_state \<Rightarrow> jfilter list" where
  "status_part props u =
     (if truthy_text (ui_status u)
        then [op_filter (statusField props) ''='' (JStr (text_or_empty (ui_status u)))]
      else [])"

text \<open>The project is trimmed and checked against the normalized list of the bar.\<close>

definition project_part :: "bar_props \<Rightarrow> opt_item list \<Rightarrow> ui_state \<Rightarrow> jfilter list" where
  "project_part props project_items u =
     (if truthy_text (ui_project u)
        then (let pv = trim (text_or_empty (ui_project u));
                  allowed = find (\<lambda>p. ce_value p = pv) (normalizeOptions project_items)
              in if pv \<noteq> [] \<and> length pv \<le> MAX_LEN \<and> allowed \<noteq> None
                   then [op_filter (projectField props) ''='' (JStr pv)]
                 else [])
      else [])"

definition last_contact_name :: "bar_props \<Rightarrow> jstring" where
  "last_contact_name props =
     (if lastContactField props \<noteq> [] then lastContactField props else lit ''last_contacted_on'')"

definition from_part :: "bar_props \<Rightarrow> ui_state \<Rightarrow> jfilter list" where
  "from_part props u =
     (if truthy_text (ui_last_contacted_from u)
        then [op_filter (last_contact_name props) ''>=''
                (JStr (text_or_empty (ui_last_contacted_from u)))]
      else [])"

definition to_part :: "bar_props \<Rightarrow> ui_state \<Rightarrow> jfilter list" where
  "to_part props u =
     (if truthy_text (ui_last_contacted_to u)
        then [op_filter (last_contact_name props) ''<=''
                (JStr (end_of_day (text_or_empty (ui_last_contacted_to u))))]
      else [])"

definition buildFiltersPayload ::
  "bar_props \<Rightarrow> opt_item list \<Rightarrow> jstr_opt \<Rightarrow> ui_state \<Rightarrow> jfilter list" where
  "buildFiltersPayload props project_items me u =
     owner_part props me u @ status_part props u @ project_part props project_items u @
     from_part props u @ to_part props u"

text \<open>The props that the page gives to the bar.\<close>

definition page_bar_props :: "docfield list \<Rightarrow> bar_props" where
  "page_bar_props meta =
     \<lparr>statusField = lit ''status'', projectField = PROJECT_FIELD meta,
      ownerField = lit ''lead_owner'',
      lastContactField = df_fieldname (LAST_CONTACT_FIELD meta)\<rparr>"

section \<open>Catalogs\<close>

text \<open>
  A JavaScript \<open>Map\<close> keeps its keys in the order of their first insertion; \<open>set\<close> on a key
  that is present replaces the value in place. It is modelled as an association list.
\<close>

type_synonym ('k, 'v) jsmap = "('k \<times> 'v) list"

definition map_has :: "('k, 'v) jsmap \<Rightarrow> 'k \<Rightarrow> bool" where
  "map_has m k \<longleftrightarrow> k \<in> fst ` set m"

fun map_set :: "('k, 'v) jsmap \<Rightarrow> 'k \<Rightarrow> 'v \<Rightarrow> ('k, 'v) jsmap" where
  "map_set [] k v = [(k, v)]"
| "map_set ((k', v') # m) k v = (if k' = k then (k, v) # m else (k', v') # map_set m k v)"

definition map_values :: "('k, 'v) jsmap \<Rightarrow> 'v list" where
  "map_values m = map snd m"

text \<open>\<open>if (p.value && !merged.has(p.value)) merged.set(p.value, p)\<close>.\<close>

definition add_if_new ::
  "(jstring, catalog_entry) jsmap \<Rightarrow> catalog_entry \<Rightarrow> (jstring, catalog_entry) jsmap" where
  "add_if_new merged p =
     (if ce_value p \<noteq> [] \<and> \<not> map_has merged (ce_value p) then map_set merged (ce_value p) p
      else merged)"

text \<open>The computed \<open>projectList\<close>: the authoritative catalog, then the seen projects.\<close>

definition projectList :: "catalog_entry list \<Rightarrow> catalog_entry list \<Rightarrow> catalog_entry list" where
  "projectList fullProjectCatalog seenProjects =
     map_values (foldl add_if_new (foldl add_if_new [] fullProjectCatalog) seenProjects)"

text \<open>\<open>norm\<close>: trimmed, non-empty, first occurrence only.\<close>

fun norm_loop :: "jstr_opt list \<Rightarrow> catalog_entry list \<Rightarrow> jstring set \<Rightarrow> catalog_entry list" where
  "norm_loop [] out seen = out"
| "norm_loop (s # strs) out seen =
     (let v = trim (or_empty s) in
      if v = [] \<or> v \<in> seen then norm_loop strs out seen
      else norm_loop strs (out @ [\<lparr>ce_label = v, ce_value = v, ce_color = None\<rparr>])
             (insert v seen))"

definition norm_list :: "jstr_opt list \<Rightarrow> catalog_entry list" where
  "norm_list strs = norm_loop strs [] {}"

text \<open>\<open>s.split('\n')\<close>: always at least one piece.\<close>

fun split_lines :: "jstring \<Rightarrow> jstring list" where
  "split_lines [] = [[]]"
| "split_lines (c # s) =
     (if c = 10 then [] # split_lines s
      else (case split_lines s of
              [] \<Rightarrow> [[c]]
            | l # ls \<Rightarrow> (c # l) # ls))"

definition optionsFromSelect :: "docfield list \<Rightarrow> jstring \<Rightarrow> catalog_entry list" where
  "optionsFromSelect meta name =
     (case getLeadFieldMeta meta name of
        None \<Rightarrow> []
      | Some f \<Rightarrow>
          if toLowerCase (or_empty (df_fieldtype f)) \<noteq> lit ''select'' then []
          else norm_list (map Some (filter (\<lambda>s. s \<noteq> [])
                                 (map trim (split_lines (or_empty (df_options f)))))))"

text \<open>
  A cell of a shaped row: missing, a text, or an object with the optional properties
  \<open>value\<close> and \<open>label\<close>.
\<close>

datatype cell = CellNone | CellText jstring | CellObj jstr_opt jstr_opt

text \<open>
  \<open>cell?.value ?? cell?.label ?? cell\<close>, as the string that \<open>norm\<close> will make of it: an
  object with neither property is kept as it is and reads \<open>[object Object]\<close>.
\<close>

fun cell_seen :: "cell \<Rightarrow> jstr_opt" where
  "cell_seen CellNone = None"
| "cell_seen (CellText s) = Some s"
| "cell_seen (CellObj (Some v) l) = Some v"
| "cell_seen (CellObj None (Some l)) = Some l"
| "cell_seen (CellObj None None) = Some (lit ''[object Object]'')"

text \<open>\<open>seenFromRows\<close>, given the cells of the field in the current rows: the truthy
  values (the set \<open>vals\<close> only removes repetitions, which \<open>norm\<close> removes again).\<close>

definition seenFromRows :: "cell list \<Rightarrow> catalog_entry list" where
  "seenFromRows cells = norm_list (filter truthy_str (map cell_seen cells))"

text \<open>\<open>fromMeta.forEach((o) => merged.set(o.value, o))\<close>.\<close>

definition set_entry ::
  "(jstring, catalog_entry) jsmap \<Rightarrow> catalog_entry \<Rightarrow> (jstring, catalog_entry) jsmap" where
  "set_entry merged e = map_set merged (ce_value e) e"

text \<open>\<open>if (!merged.has(o.value)) merged.set(o.value, o)\<close>.\<close>

definition add_if_absent ::
  "(jstring, catalog_entry) jsmap \<Rightarrow> catalog_entry \<Rightarrow> (jstring, catalog_entry) jsmap" where
  "add_if_absent merged e =
     (if \<not> map_has merged (ce_value e) then map_set merged (ce_value e) e else merged)"

text \<open>\<open>loadSimpleCatalog\<close>: the value that it stores in \<open>targetRef\<close>.\<close>

definition loadSimpleCatalog :: "docfield list \<Rightarrow> jstring \<Rightarrow> cell list \<Rightarrow> catalog_entry list" where
  "loadSimpleCatalog meta name cells =
     map_values (foldl add_if_absent (foldl set_entry [] (optionsFromSelect meta name))
                   (seenFromRows cells))"

text \<open>The invariant of the merged map: its entries are stored under their own non-empty value, each key once.\<close>

definition keyed :: "(jstring, catalog_entry) jsmap \<Rightarrow> bool" where
  "keyed m \<longleftrightarrow> distinct (map fst m) \<and> (\<forall>(k, e) \<in> set m. ce_value e = k \<and> k \<noteq> [])"

section \<open>The delayed-flag map\<close>

text \<open>\<open>Array.from(new Set(names))\<close>: the first occurrence of each name, in order.\<close>

fun unique_loop :: "'a list \<Rightarrow> 'a list \<Rightarrow> 'a list" where
  "unique_loop [] out = out"
| "unique_loop (x # xs) out =
     (if x \<in> set out then unique_loop xs out else unique_loop xs (out @ [x]))"

definition unique :: "'a list \<Rightarrow> 'a list" where
  "unique names = unique_loop names []"

text \<open>\<open>unique.join('|')\<close>.\<close>

fun join_bar :: "jstring list \<Rightarrow> jstring" where
  "join_bar [] = []"
| "join_bar [x] = x"
| "join_bar (x # y # xs) = x @ [124] @ join_bar (y # xs)"

definition MAX_DELAYED_BATCH :: nat where
  "MAX_DELAYED_BATCH = 200"

text \<open>The slices \<open>unique.slice(i, i + MAX_DELAYED_BATCH)\<close> for \<open>i = 0, 200, \<dots>\<close>.\<close>

function chunks :: "'a list \<Rightarrow> 'a list list" where
  "chunks xs =
     (if xs = [] then []
      else take MAX_DELAYED_BATCH xs # chunks (drop MAX_DELAYED_BATCH xs))"
  by pat_completeness auto
termination
  by (relation "measure length") (auto simp: MAX_DELAYED_BATCH_def)

declare chunks.simps [simp del]

text \<open>
  The batch lookup \<open>crm.api.reminders.get_delayed_map\<close> is a remote call: for a chunk of
  names it answers with an object from names to flags (\<open>res?.message || {}\<close>), or the call
  rejects (\<open>None\<close>). An object keeps its keys in the order of their insertion, like a
  \<open>Map\<close>.
\<close>

type_synonym flag_map = "(jstring, bool) jsmap"

type_synonym remote = "jstring list \<Rightarrow> flag_map option"

text \<open>\<open>Object.assign(target, source)\<close>.\<close>

fun assign :: "('k, 'v) jsmap \<Rightarrow> ('k, 'v) jsmap \<Rightarrow> ('k, 'v) jsmap" where
  "assign target [] = target"
| "assign target ((k, v) # source) = assign (map_set target k v) source"

text \<open>A lookup for the examples: it answers that every lead of the chunk is delayed.\<close>

definition all_delayed :: remote where
  "all_delayed chunk = Some (map (\<lambda>name. (name, True)) chunk)"

record delayed_state =
  lastDelayedNamesKey :: jstring
  delayedMap :: flag_map

text \<open>
  The loop over the chunks: each answer is merged into \<open>freshMap\<close>; a rejected call ends
  the loop. The result is the merged map (or \<open>None\<close> after a rejection) and the chunks
  for which the remote method was called.
\<close>

fun fetch_chunks :: "remote \<Rightarrow> jstring list list \<Rightarrow> flag_map \<Rightarrow> flag_map option \<times> jstring list list" where
  "fetch_chunks call [] freshMap = (Some freshMap, [])"
| "fetch_chunks call (c # cs) freshMap =
     (case call c of
        None \<Rightarrow> (None, [c])
      | Some m \<Rightarrow>
          (let (r, called) = fetch_chunks call cs (assign freshMap m) in (r, c # called)))"

text \<open>What a run of the refresh yields: the state at its end, the map that the page
  shows while the calls are under way, and the chunks that were looked up.\<close>

record refresh_result =
  final :: delayed_state
  during :: flag_map
  looked_up :: "jstring list list"

text \<open>The body of \<open>scheduleDelayedMapRefresh\<close>, for the names that
  \<open>getVisibleLeadNames()\<close> returned.\<close>

definition delayedMapRefresh :: "remote \<Rightarrow> jstring list \<Rightarrow> delayed_state \<Rightarrow> refresh_result" where
  "delayedMapRefresh call names st =
     (if names = []
        then \<lparr>final = \<lparr>lastDelayedNamesKey = [], delayedMap = []\<rparr>,
              during = [], looked_up = []\<rparr>
      else (let newKey = join_bar (unique names);
                namesChanged = (newKey \<noteq> lastDelayedNamesKey st);
                shown = (if namesChanged then [] else delayedMap st);
                (r, called) = fetch_chunks call (chunks (unique names)) []
            in case r of
                 Some freshMap \<Rightarrow>
                   \<lparr>final = \<lparr>lastDelayedNamesKey = newKey, delayedMap = freshMap\<rparr>,
                    during = shown, looked_up = called\<rparr>
               | None \<Rightarrow>
                   \<lparr>final = \<lparr>lastDelayedNamesKey = lastDelayedNamesKey st,
                              delayedMap = []\<rparr>,
                    during = shown, looked_up = called\<rparr>))"

section \<open>\<open>JSON.parse\<close> and the cell \<open>_assign\<close>\<close>

datatype js_error = SyntaxError | TypeError

text \<open>
  The result of a parsing function: a value and the rest of the input, a syntax error, or
  the end of the fuel of the model (kept apart from a syntax error).
\<close>

datatype 'a parsed = POk 'a jstring | PError | PFuel

definition json_ws :: "nat \<Rightarrow> bool" where
  "json_ws c \<longleftrightarrow> c = 32 \<or> c = 9 \<or> c = 10 \<or> c = 13"

definition skip_ws :: "jstring \<Rightarrow> jstring" where
  "skip_ws s = dropWhile json_ws s"

definition hex_value :: "nat \<Rightarrow> nat option" where
  "hex_value c =
     (if 48 \<le> c \<and> c \<le> 57 then Some (c - 48)
      else if 97 \<le> c \<and> c \<le> 102 then Some (c - 87)
      else if 65 \<le> c \<and> c \<le> 70 then Some (c - 55)
      else None)"

text \<open>The code unit of a one-letter escape: \<open>\" \\ \/ \b \f \n \r \t\<close>.\<close>

definition escape_unit :: "nat \<Rightarrow> nat option" where
  "escape_unit e =
     (if e = 34 \<or> e = 92 \<or> e = 47 then Some e
      else if e = 98 then Some 8
      else if e = 102 then Some 12
      else if e = 110 then Some 10
      else if e = 114 then Some 13
      else if e = 116 then Some 9
      else None)"

text \<open>The characters of a string after its opening quote, up to the closing one.\<close>

fun json_chars :: "jstring \<Rightarrow> jstring \<Rightarrow> (jstring \<times> jstring) option" where
  "json_chars [] acc = None"
| "json_chars (c # s) acc =
     (if c = 34 then Some (acc, s)
      else if c = 92 then
        (case s of
           [] \<Rightarrow> None
         | e # s1 \<Rightarrow>
             if e = 117 then
               (case s1 of
                  a # b # c' # d # s2 \<Rightarrow>
                    (case (hex_value a, hex_value b, hex_value c', hex_value d) of
                       (Some h1, Some h2, Some h3, Some h4) \<Rightarrow>
                         json_chars s2 (acc @ [4096 * h1 + 256 * h2 + 16 * h3 + h4])
                     | _ \<Rightarrow> None)
                | _ \<Rightarrow> None)
             else (case escape_unit e of
                     Some x \<Rightarrow> json_chars s1 (acc @ [x])
                   | None \<Rightarrow> None))
      else if c < 32 then None
      else json_chars s (acc @ [c]))"

text \<open>The double nearest to \<open>q \<ge> 0\<close> with its sign applied.\<close>

definition signed_num :: "bool \<Rightarrow> rat \<Rightarrow> jsnum" where
  "signed_num neg q =
     (case round_double q of
        Fin v \<Rightarrow> Fin (if neg then - v else v)
      | PosInf \<Rightarrow> (if neg then NegInf else PosInf)
      | n \<Rightarrow> n)"

text \<open>The integer part \<open>0 | [1-9][0-9]*\<close>: its digits and the rest.\<close>

definition json_int :: "jstring \<Rightarrow> (jstring \<times> jstring) option" where
  "json_int s =
     (case s of
        [] \<Rightarrow> None
      | c # r \<Rightarrow>
          if c = 48 then Some ([c], r)
          else if is_d c then Some (takeWhile is_d s, dropWhile is_d s)
          else None)"

text \<open>The fraction \<open>(. [0-9]+)?\<close>: its digits (none without a dot) and the rest.\<close>

definition json_frac :: "jstring \<Rightarrow> (jstring \<times> jstring) option" where
  "json_frac s =
     (case s of
        c # r \<Rightarrow>
          if c = 46 then (if takeWhile is_d r = [] then None
                          else Some (takeWhile is_d r, dropWhile is_d r))
          else Some ([], s)
      | [] \<Rightarrow> Some ([], s))"

text \<open>The exponent \<open>([eE] [+-]? [0-9]+)?\<close>: its sign, its digits and the rest.\<close>

definition json_exp :: "jstring \<Rightarrow> (bool \<times> jstring \<times> jstring) option" where
  "json_exp s =
     (case s of
        c # r \<Rightarrow>
          if c = 101 \<or> c = 69 then
            (let neg = (r \<noteq> [] \<and> hd r = 45);
                 r' = (if r \<noteq> [] \<and> (hd r = 45 \<or> hd r = 43) then tl r else r)
             in if takeWhile is_d r' = [] then None
                else Some (neg, takeWhile is_d r', dropWhile is_d r'))
          else Some (False, [], s)
      | [] \<Rightarrow> Some (False, [], s))"

definition json_number :: "jstring \<Rightarrow> jsval parsed" where
  "json_number s =
     (let neg = (s \<noteq> [] \<and> hd s = 45);
          s1 = (if neg then tl s else s)
      in case json_int s1 of
           None \<Rightarrow> PError
         | Some (ip, r1) \<Rightarrow>
             (case json_frac r1 of
                None \<Rightarrow> PError
              | Some (fp, r2) \<Rightarrow>
                  (case json_exp r2 of
                     None \<Rightarrow> PError
                   | Some (eneg, ed, r3) \<Rightarrow>
                       (let m = of_nat (digits_value ip)
                                + of_nat (digits_value fp) / 10 ^ length fp;
                            q = (if eneg then m / 10 ^ digits_value ed
                                 else m * 10 ^ digits_value ed)
                        in POk (JNum (signed_num neg q)) r3))))"

text \<open>\<open>s\<close> without the prefix \<open>w\<close>, when it starts with it.\<close>

fun strip_prefix :: "jstring \<Rightarrow> jstring \<Rightarrow> jstring option" where
  "strip_prefix [] s = Some s"
| "strip_prefix (w # ws) [] = None"
| "strip_prefix (w # ws) (c # s) = (if w = c then strip_prefix ws s else None)"

text \<open>
  The grammar of JSON values. The first argument is fuel: it bounds the number of nested
  calls, and running out of it is the result \<open>PFuel\<close>.
\<close>

fun json_value :: "nat \<Rightarrow> jstring \<Rightarrow> jsval parsed"
  and json_elements :: "nat \<Rightarrow> jstring \<Rightarrow> jsval list \<Rightarrow> jsval parsed"
  and json_members :: "nat \<Rightarrow> jstring \<Rightarrow> (jstring, jsval) jsmap \<Rightarrow> jsval parsed" where
  "json_value 0 s = PFuel"
| "json_value (Suc n) s =
     (case skip_ws s of
        [] \<Rightarrow> PError
      | c # r \<Rightarrow>
          if c = 91 then
            (case skip_ws r of
               [] \<Rightarrow> PError
             | c1 # r1 \<Rightarrow> if c1 = 93 then POk (JArr []) r1 else json_elements n r [])
          else if c = 123 then
            (case skip_ws r of
               [] \<Rightarrow> PError
             | c1 # r1 \<Rightarrow> if c1 = 125 then POk (JObj []) r1 else json_members n r [])
          else if c = 34 then
            (case json_chars r [] of
               None \<Rightarrow> PError
             | Some (str, r1) \<Rightarrow> POk (JStr str) r1)
          else if c = 45 \<or> is_d c then json_number (c # r)
          else (case strip_prefix (lit ''true'') (c # r) of
                  Some r1 \<Rightarrow> POk (JBool True) r1
                | None \<Rightarrow>
                    (case strip_prefix (lit ''false'') (c # r) of
                       Some r1 \<Rightarrow> POk (JBool False) r1
                     | None \<Rightarrow>
                         (case strip_prefix (lit ''null'') (c # r) of
                            Some r1 \<Rightarrow> POk JNull r1
                          | None \<Rightarrow> PError))))"
| "json_elements 0 s acc = PFuel"
| "json_elements (Suc n) s acc =
     (case json_value n s of
        PError \<Rightarrow> PError
      | PFuel \<Rightarrow> PFuel
      | POk v r \<Rightarrow>
          (case skip_ws r of
             [] \<Rightarrow> PError
           | c # r1 \<Rightarrow>
               if c = 44 then json_elements n r1 (acc @ [v])
               else if c = 93 then POk (JArr (acc @ [v])) r1
               else PError))"
| "json_members 0 s acc = PFuel"
| "json_members (Suc n) s acc =
     (case skip_ws s of
        [] \<Rightarrow> PError
      | q # r \<Rightarrow>
          if q \<noteq> 34 then PError
          else (case json_chars r [] of
                  None \<Rightarrow> PError
                | Some (key, r1) \<Rightarrow>
                    (case skip_ws r1 of
                       [] \<Rightarrow> PError
                     | c # r2 \<Rightarrow>
                         if c \<noteq> 58 then PError
                         else (case json_value n r2 of
                                 PError \<Rightarrow> PError
                               | PFuel \<Rightarrow> PFuel
                               | POk v r3 \<Rightarrow>
                                   (case skip_ws r3 of
                                      [] \<Rightarrow> PError
                                    | c' # r4 \<Rightarrow>
                                        if c' = 44 then json_members n r4 (map_set acc key v)
                                        else if c' = 125
                                          then POk (JObj (map_set acc key v)) r4
                                        else PError)))))"

text \<open>What a call does: it returns, or it throws. The third outcome is that of the model
  alone. \<open>JSON.parse(text)\<close> returns the value or throws a \<open>SyntaxError\<close>.\<close>

datatype 'a outcome = Returns 'a | Throws js_error | OutOfFuel

definition JSON_parse :: "jstring \<Rightarrow> jsval outcome" where
  "JSON_parse s =
     (case json_value (2 * length s + 2) s of
        POk v r \<Rightarrow> if skip_ws r = [] then Returns v else Throws SyntaxError
      | PError \<Rightarrow> Throws SyntaxError
      | PFuel \<Rightarrow> OutOfFuel)"

text \<open>
  What \<open>getUser\<close> of the users store returns for a user id: an object with (at least)
  the image and the full name. The store is not among the sources; the function is a
  parameter of the model.
\<close>

record user_info =
  user_image :: jstr_opt
  full_name :: jstr_opt

record avatar =
  av_name :: jsval
  av_image :: jstr_opt
  av_label :: jstr_opt

text \<open>
  The branch \<open>row === '_assign'\<close> of \<open>parseRows\<close>: the parse is not guarded, and \<open>map\<close> is
  called on whatever it returns (a \<open>TypeError\<close> when that is not an array).
\<close>

definition assign_cell :: "(jsval \<Rightarrow> user_info) \<Rightarrow> jtext \<Rightarrow> avatar list outcome" where
  "assign_cell getUser a =
     (case JSON_parse (if truthy_text a then text_or_empty a else lit ''[]'') of
        Throws e \<Rightarrow> Throws e
      | OutOfFuel \<Rightarrow> OutOfFuel
      | Returns (JArr assignees) \<Rightarrow>
          Returns (map (\<lambda>user. \<lparr>av_name = user, av_image = user_image (getUser user),
                                  av_label = full_name (getUser user)\<rparr>) assignees)
      | Returns _ \<Rightarrow> Throws TypeError)"

section \<open>Basic facts about strings\<close>

lemma lit_eq_iff: "lit s = lit t \<longleftrightarrow> s = t"
  unfolding lit_def by (simp add: inj_map_eq_map inj_on_def)

lemma raw_falsy_fieldname: "truthy_str (raw_fieldname f) \<Longrightarrow> f \<noteq> RFalsy"
  by (cases f) simp_all

section \<open>\<open>sanitizeFilters\<close>\<close>

text \<open>
  C1 (as the claim states it, refuted). An entry with the presence-check operator \<open>is\<close> and
  an empty value is retained by the rule of the specification, but the code drops it:
  the test for an empty value has no exemption for any operator.
\<close>

theorem sanitizeFilters_is_counterexample:
  "spec_retains (RObj (Some (lit ''_assign'')) (Some (lit ''is'')) (Some (JStr []))) \<and>
   sanitizeFilters [RObj (Some (lit ''_assign'')) (Some (lit ''is'')) (Some (JStr []))] = []"
  by (simp add: spec_retains_def is_between_def lit_def toLowerCase_def lower_unit_def)

text \<open>
  C1 (amended). For every input list, \<open>sanitizeFilters\<close> returns, in order, exactly the
  entries that have a non-empty fieldname and operator, whose value is not null, undefined
  or the empty string (whatever the operator), and, when the operator is \<open>between\<close> in any
  letter case, whose value is a two-element array with both elements non-null.
\<close>

theorem sanitizeFilters_retains:
  "sanitizeFilters arr = map as_filter (filter retains arr)"
proof (induction arr)
  case Nil
  show ?case by simp
next
  case (Cons f arr)
  show ?case
  proof (cases "retains f")
    case True
    then have "f \<noteq> RFalsy"
      using raw_falsy_fieldname by (auto simp: retains_def)
    with True Cons show ?thesis
      by (auto simp: retains_def as_filter_def)
  next
    case False
    with Cons show ?thesis
      by (auto simp: retains_def)
  qed
qed

theorem sanitizeFilters_retains_witness:
  "sanitizeFilters
     [RObj (Some (lit ''creation'')) (Some (lit ''Between''))
        (Some (JArr [JStr (lit ''2024-01-01''), JStr (lit ''2024-01-31'')])),
      RObj (Some (lit ''creation'')) (Some (lit ''between''))
        (Some (JArr [JStr (lit ''2024-01-01''), JNull])),
      RFalsy,
      RTuple (Some (lit ''status'')) (Some (lit ''='')) (JStr (lit ''New'')),
      RObj (Some (lit ''status'')) None (Some (JStr (lit ''New''))),
      RObj (Some (lit ''_assign'')) (Some (lit ''is'')) (Some (JStr []))]
   = [\<lparr>fieldname = Some (lit ''creation''), operator = Some (lit ''Between''),
        val = JArr [JStr (lit ''2024-01-01''), JStr (lit ''2024-01-31'')]\<rparr>,
      \<lparr>fieldname = Some (lit ''status''), operator = Some (lit ''=''),
        val = JStr (lit ''New'')\<rparr>]"
  using sanitizeFilters_retains
    [of "[RObj (Some (lit ''creation'')) (Some (lit ''Between''))
            (Some (JArr [JStr (lit ''2024-01-01''), JStr (lit ''2024-01-31'')])),
          RObj (Some (lit ''creation'')) (Some (lit ''between''))
            (Some (JArr [JStr (lit ''2024-01-01''), JNull])),
          RFalsy,
          RTuple (Some (lit ''status'')) (Some (lit ''='')) (JStr (lit ''New'')),
          RObj (Some (lit ''status'')) None (Some (JStr (lit ''New''))),
          RObj (Some (lit ''_assign'')) (Some (lit ''is'')) (Some (JStr []))]"]
  by (simp add: retains_def as_filter_def is_between_def lit_def toLowerCase_def lower_unit_def)

section \<open>The route query and \<open>applyFilters\<close>\<close>

lemma PROJECT_FIELD_cases:
  "PROJECT_FIELD meta = lit ''real_estate_project'' \<or> PROJECT_FIELD meta = lit ''project''"
  by (simp add: PROJECT_FIELD_def)

lemma PROJECT_FIELD_nonempty: "PROJECT_FIELD meta \<noteq> []"
  using PROJECT_FIELD_cases [of meta] by (auto simp: lit_def)

lemma PROJECT_FIELD_not_delayed: "PROJECT_FIELD meta \<noteq> lit ''delayed''"
  using PROJECT_FIELD_cases [of meta] by (auto simp: lit_eq_iff)

lemma wire_operator_eq: "wire_operator (Some (lit ''='')) = lit ''=''"
  by (simp add: wire_operator_def toLowerCase_def lower_unit_def lit_def)

lemma applyFilters_calls_some:
  "wire_tuples F \<noteq> [] \<Longrightarrow>
   snd (applyFilters F r (Some c) p) =
     (if has_setFilters c then [SetFilters (wire_tuples F)]
      else if has_applyFilter c then [ApplyFilter (wire_tuples F) r] else [])"
  by (simp add: applyFilters_def Let_def)

lemma snd_applyFilters:
  "snd (applyFilters F r vc p) =
     (case vc of
        None \<Rightarrow> []
      | Some c \<Rightarrow>
          if wire_tuples F = []
            then (if has_clearFilters c
                    then ClearFilters # (if has_reload c then [Reload] else [])
                  else [])
          else (if has_setFilters c then [SetFilters (wire_tuples F)]
                else if has_applyFilter c then [ApplyFilter (wire_tuples F) r]
                else []))"
  by (simp add: applyFilters_def Let_def split: option.splits)

lemma applyQueryFilters_calls:
  "snd (applyQueryFilters meta q vc p) = snd (applyFilters (query_F meta q) True vc p)"
  by (cases "query_F meta q = []") (simp_all add: applyQueryFilters_def Let_def snd_applyFilters)

text \<open>
  C2. For the route query \<open>{status: 'New', project: 'P1'}\<close>, \<open>applyQueryFilters\<close> builds the
  filter list \<open>[{status = New}, {<project field> = P1}]\<close> in that order and applies it with
  \<open>replace = true\<close>: a controller that has \<open>setFilters\<close> or \<open>applyFilter\<close> receives exactly
  one call with the two wire tuples (\<open>applyFilter\<close> with the flag set), and whatever filters
  were active before, the active filters afterwards are these two tuples.
\<close>

theorem applyQueryFilters_status_project:
  assumes "has_setFilters c \<or> has_applyFilter c"
  shows "query_F meta \<lparr>q_status = Some (lit ''New''), q_type = None, q_priority = None,
               q_follow_up = None, q_delayed = JUndefined, q_project = Some (lit ''P1''),
               q_user = None, q_create = None\<rparr> =
           [\<lparr>fieldname = Some (lit ''status''), operator = Some (lit ''=''),
              val = JStr (lit ''New'')\<rparr>,
            \<lparr>fieldname = Some (PROJECT_FIELD meta), operator = Some (lit ''=''),
              val = JStr (lit ''P1'')\<rparr>]
       \<and> snd (applyQueryFilters meta \<lparr>q_status = Some (lit ''New''), q_type = None,
               q_priority = None, q_follow_up = None, q_delayed = JUndefined,
               q_project = Some (lit ''P1''), q_user = None, q_create = None\<rparr> (Some c) p) =
           [if has_setFilters c
              then SetFilters
                [\<lparr>w_doctype = lit ''CRM Lead'', w_fieldname = lit ''status'',
                   w_operator = lit ''='', w_value = JStr (lit ''New'')\<rparr>,
                 \<lparr>w_doctype = lit ''CRM Lead'', w_fieldname = PROJECT_FIELD meta,
                   w_operator = lit ''='', w_value = JStr (lit ''P1'')\<rparr>]
            else ApplyFilter
                [\<lparr>w_doctype = lit ''CRM Lead'', w_fieldname = lit ''status'',
                   w_operator = lit ''='', w_value = JStr (lit ''New'')\<rparr>,
                 \<lparr>w_doctype = lit ''CRM Lead'', w_fieldname = PROJECT_FIELD meta,
                   w_operator = lit ''='', w_value = JStr (lit ''P1'')\<rparr>] True]
       \<and> run_calls active
            (snd (applyQueryFilters meta \<lparr>q_status = Some (lit ''New''), q_type = None,
               q_priority = None, q_follow_up = None, q_delayed = JUndefined,
               q_project = Some (lit ''P1''), q_user = None, q_create = None\<rparr> (Some c) p)) =
           [\<lparr>w_doctype = lit ''CRM Lead'', w_fieldname = lit ''status'',
              w_operator = lit ''='', w_value = JStr (lit ''New'')\<rparr>,
            \<lparr>w_doctype = lit ''CRM Lead'', w_fieldname = PROJECT_FIELD meta,
              w_operator = lit ''='', w_value = JStr (lit ''P1'')\<rparr>]"
  (is "query_F meta ?q = ?F \<and> snd ?run = [if _ then SetFilters ?T else _] \<and> _")
proof -
  have F: "query_F meta ?q = ?F"
    by (simp add: query_F_def eq_filter_def lit_def)
  have W: "wire_tuples ?F = ?T"
    by (simp add: wire_operator_eq wire_value_def DOC_def PROJECT_FIELD_nonempty
        PROJECT_FIELD_not_delayed lit_eq_iff) (simp add: lit_def)
  have "wire_tuples (query_F meta ?q) \<noteq> []"
    unfolding F W by simp
  then have "snd ?run =
      (if has_setFilters c then [SetFilters (wire_tuples (query_F meta ?q))]
       else if has_applyFilter c then [ApplyFilter (wire_tuples (query_F meta ?q)) True]
       else [])"
    unfolding applyQueryFilters_calls by (rule applyFilters_calls_some)
  with assms have C:
    "snd ?run = [if has_setFilters c then SetFilters ?T else ApplyFilter ?T True]"
    unfolding F W by auto
  have R: "run_calls active (snd ?run) = ?T"
    unfolding C by (simp add: run_calls_def)
  from F C R show ?thesis by simp
qed

theorem applyQueryFilters_status_project_witness:
  "\<forall>p active.
     run_calls active
        (snd (applyQueryFilters [] \<lparr>q_status = Some (lit ''New''), q_type = None,
               q_priority = None, q_follow_up = None, q_delayed = JUndefined,
               q_project = Some (lit ''P1''), q_user = None, q_create = None\<rparr>
            (Some \<lparr>has_setFilters = False, has_applyFilter = True, has_clearFilters = True,
                    has_reload = True\<rparr>) p))
       = [\<lparr>w_doctype = lit ''CRM Lead'', w_fieldname = lit ''status'',
                w_operator = lit ''='', w_value = JStr (lit ''New'')\<rparr>,
              \<lparr>w_doctype = lit ''CRM Lead'', w_fieldname = lit ''real_estate_project'',
                w_operator = lit ''='', w_value = JStr (lit ''P1'')\<rparr>]"
proof (intro allI)
  fix p active
  let ?c = "\<lparr>has_setFilters = False, has_applyFilter = True, has_clearFilters = True,
             has_reload = True\<rparr>"
  have h: "has_setFilters ?c \<or> has_applyFilter ?c" by simp
  have m: "PROJECT_FIELD [] = lit ''real_estate_project''"
    by (simp add: PROJECT_FIELD_def getLeadFieldMeta_def)
  from applyQueryFilters_status_project [OF h, where meta = "[]" and p = p
      and active = active]
  show "run_calls active
        (snd (applyQueryFilters [] \<lparr>q_status = Some (lit ''New''), q_type = None,
               q_priority = None, q_follow_up = None, q_delayed = JUndefined,
               q_project = Some (lit ''P1''), q_user = None, q_create = None\<rparr>
            (Some ?c) p))
       = [\<lparr>w_doctype = lit ''CRM Lead'', w_fieldname = lit ''status'',
                w_operator = lit ''='', w_value = JStr (lit ''New'')\<rparr>,
              \<lparr>w_doctype = lit ''CRM Lead'', w_fieldname = lit ''real_estate_project'',
                w_operator = lit ''='', w_value = JStr (lit ''P1'')\<rparr>]"
    unfolding m by blast
qed

lemma wire_tuples_shape:
  "t \<in> set (wire_tuples filters) \<Longrightarrow>
   w_doctype t = lit ''CRM Lead'' \<and>
   (\<exists>f \<in> set filters.
      fieldname f = Some (w_fieldname t) \<and>
      w_operator t = toLowerCase (if truthy_str (operator f) then or_empty (operator f)
                                  else lit ''='') \<and>
      w_value t = (if w_fieldname t = lit ''delayed''
                     then (if truthy (val f) then JNum (Fin 1) else JNum (Fin 0))
                   else val f))"
proof (induction filters)
  case Nil
  then show ?case by simp
next
  case (Cons f filters)
  show ?case
  proof (cases "\<not> truthy_str (fieldname f) \<or> empty_value (val f)")
    case True
    with Cons show ?thesis by auto
  next
    case False
    then obtain s where s: "fieldname f = Some s" "s \<noteq> []"
      by (cases "fieldname f") auto
    from Cons.prems False consider
      "t = \<lparr>w_doctype = DOC, w_fieldname = or_empty (fieldname f),
             w_operator = wire_operator (operator f), w_value = wire_value f\<rparr>"
      | "t \<in> set (wire_tuples filters)"
      by auto
    then show ?thesis
    proof cases
      case 1
      with s show ?thesis
        by (simp add: DOC_def wire_operator_def wire_value_def)
    next
      case 2
      with Cons.IH show ?thesis by auto
    qed
  qed
qed

lemma applyFilters_calls:
  "call \<in> set (snd (applyFilters filters replace vc p)) \<Longrightarrow>
   set (call_tuples call) \<subseteq> set (wire_tuples filters)"
  by (auto simp: applyFilters_def Let_def split: option.splits if_splits)

text \<open>
  C10. Every wire tuple that \<open>applyFilters\<close> hands to the controller has the shape
  \<open>['CRM Lead', fieldname, operator, value]\<close> of some input filter: the operator is the
  lower-cased operator of the filter (\<open>=\<close> when it is absent or empty), and for the
  fieldname \<open>delayed\<close> the value is the number 1 (truthy input) or the number 0 (falsy
  input); for every other field the value is passed on unchanged.
\<close>

theorem applyFilters_wire_shape:
  assumes "call \<in> set (snd (applyFilters filters replace vc p))"
    and "t \<in> set (call_tuples call)"
  shows "w_doctype t = lit ''CRM Lead'' \<and>
   (\<exists>f \<in> set filters.
      fieldname f = Some (w_fieldname t) \<and>
      w_operator t = toLowerCase (if truthy_str (operator f) then or_empty (operator f)
                                  else lit ''='') \<and>
      w_value t = (if w_fieldname t = lit ''delayed''
                     then (if truthy (val f) then JNum (Fin 1) else JNum (Fin 0))
                   else val f)) \<and>
   (w_fieldname t = lit ''delayed'' \<longrightarrow> w_value t = JNum (Fin 1) \<or> w_value t = JNum (Fin 0))"
proof -
  from assms have "t \<in> set (wire_tuples filters)"
    using applyFilters_calls by blast
  from wire_tuples_shape [OF this] show ?thesis by (auto split: if_splits)
qed

theorem applyFilters_wire_shape_witness:
  "\<forall>p. SetFilters
          [\<lparr>w_doctype = lit ''CRM Lead'', w_fieldname = lit ''delayed'',
             w_operator = lit ''='', w_value = JNum (Fin 1)\<rparr>,
           \<lparr>w_doctype = lit ''CRM Lead'', w_fieldname = lit ''first_name'',
             w_operator = lit ''like'', w_value = JStr (lit ''Ann'')\<rparr>]
        \<in> set (snd (applyFilters
             [\<lparr>fieldname = Some (lit ''delayed''), operator = None, val = JStr (lit ''yes'')\<rparr>,
              \<lparr>fieldname = Some (lit ''first_name''), operator = Some (lit ''LIKE''),
                val = JStr (lit ''Ann'')\<rparr>] False
             (Some \<lparr>has_setFilters = True, has_applyFilter = True, has_clearFilters = True,
                     has_reload = True\<rparr>) p))
     \<and> (\<exists>f \<in> set [\<lparr>fieldname = Some (lit ''delayed''), operator = None,
                       val = JStr (lit ''yes'')\<rparr>,
                     \<lparr>fieldname = Some (lit ''first_name''), operator = Some (lit ''LIKE''),
                       val = JStr (lit ''Ann'')\<rparr>].
           fieldname f = Some (lit ''delayed'') \<and> truthy (val f))"
proof
  fix p
  let ?F = "[\<lparr>fieldname = Some (lit ''delayed''), operator = None, val = JStr (lit ''yes'')\<rparr>,
              \<lparr>fieldname = Some (lit ''first_name''), operator = Some (lit ''LIKE''),
                val = JStr (lit ''Ann'')\<rparr>]"
  let ?c = "\<lparr>has_setFilters = True, has_applyFilter = True, has_clearFilters = True,
                     has_reload = True\<rparr>"
  let ?t = "\<lparr>w_doctype = lit ''CRM Lead'', w_fieldname = lit ''delayed'',
             w_operator = lit ''='', w_value = JNum (Fin 1)\<rparr>"
  let ?T = "[?t, \<lparr>w_doctype = lit ''CRM Lead'', w_fieldname = lit ''first_name'',
             w_operator = lit ''like'', w_value = JStr (lit ''Ann'')\<rparr>]"
  have W: "wire_tuples ?F = ?T"
    by (simp add: wire_operator_def wire_value_def DOC_def toLowerCase_def lower_unit_def
        lit_def)
  have 1: "SetFilters ?T \<in> set (snd (applyFilters ?F False (Some ?c) p))"
    unfolding applyFilters_def W by (simp add: Let_def)
  have 2: "?t \<in> set (call_tuples (SetFilters ?T))" by simp
  from applyFilters_wire_shape [OF 1 2] have 3: "\<exists>f \<in> set ?F.
           fieldname f = Some (lit ''delayed'') \<and> truthy (val f)"
    by (auto simp: lit_def)
  from 1 3 show "SetFilters ?T \<in> set (snd (applyFilters ?F False (Some ?c) p)) \<and>
     (\<exists>f \<in> set ?F. fieldname f = Some (lit ''delayed'') \<and> truthy (val f))"
    by blast
qed

section \<open>The free-text search\<close>

lemma trim_decomp:
  "s = takeWhile js_ws s @ trim s @ rev (takeWhile js_ws (rev (dropWhile js_ws s)))"
proof -
  let ?t = "dropWhile js_ws s"
  have "rev (takeWhile js_ws (rev ?t) @ dropWhile js_ws (rev ?t)) = rev (rev ?t)"
    by (simp only: takeWhile_dropWhile_id)
  then have "rev (dropWhile js_ws (rev ?t)) @ rev (takeWhile js_ws (rev ?t)) = ?t"
    by (simp only: rev_append rev_rev_ident)
  then have "?t = trim s @ rev (takeWhile js_ws (rev ?t))"
    by (simp only: trim_def)
  moreover have "s = takeWhile js_ws s @ ?t" by simp
  ultimately show ?thesis by (metis append_assoc)
qed

lemma set_trim: "set (trim s) \<subseteq> set s"
proof -
  have "set (trim s) \<subseteq> set (dropWhile js_ws s)"
    unfolding trim_def using set_dropWhileD by fastforce
  also have "\<dots> \<subseteq> set s" using set_dropWhileD by fastforce
  finally show ?thesis .
qed

lemma list_all_trim: "list_all P s \<Longrightarrow> list_all P (trim s)"
  using set_trim by (auto simp: list_all_iff)

lemma list_all_untrim:
  assumes ws: "\<And>c. js_ws c \<Longrightarrow> P c" and t: "list_all P (trim s)"
  shows "list_all P s"
proof -
  have a: "list_all P (takeWhile js_ws s)"
    using ws by (auto simp: list_all_iff dest: set_takeWhileD)
  have b: "list_all P (rev (takeWhile js_ws (rev (dropWhile js_ws s))))"
    using ws by (auto simp: list_all_iff dest: set_takeWhileD)
  have "list_all P (takeWhile js_ws s @ trim s @ rev (takeWhile js_ws (rev (dropWhile js_ws s))))"
    using a b t by simp
  then show ?thesis using trim_decomp [of s] by simp
qed

lemma dropWhile_not_hd: "xs = [] \<or> \<not> P (hd xs) \<Longrightarrow> dropWhile P xs = xs"
  by (cases xs) auto

lemma hd_dropWhile_not: "dropWhile P xs \<noteq> [] \<Longrightarrow> \<not> P (hd (dropWhile P xs))"
  using hd_dropWhile by blast

lemma last_dropWhile: "dropWhile P xs \<noteq> [] \<Longrightarrow> last (dropWhile P xs) = last xs"
  by (induction xs) (auto split: if_splits)

lemma trim_trim: "trim (trim s) = trim s"
proof -
  let ?t = "dropWhile js_ws s"
  let ?u = "dropWhile js_ws (rev ?t)"
  have ts: "trim s = rev ?u" by (simp add: trim_def)
  have 1: "dropWhile js_ws (rev ?u) = rev ?u"
  proof (cases "?u = []")
    case True
    show ?thesis unfolding True by simp
  next
    case False
    have tne: "?t \<noteq> []"
    proof
      assume e: "?t = []"
      have "?u = []" unfolding e by simp
      with False show False by contradiction
    qed
    from False have "last ?u = last (rev ?t)" by (rule last_dropWhile)
    also have "\<dots> = hd ?t" using tne by (simp add: last_rev)
    finally have "hd (rev ?u) = hd ?t" using False by (simp add: hd_rev)
    moreover have "\<not> js_ws (hd ?t)" using tne by (rule hd_dropWhile_not)
    ultimately show ?thesis by (intro dropWhile_not_hd) simp
  qed
  have "trim (rev ?u) = rev (dropWhile js_ws (rev (dropWhile js_ws (rev ?u))))"
    by (simp add: trim_def)
  also have "\<dots> = rev (dropWhile js_ws ?u)" unfolding 1 by simp
  also have "\<dots> = rev ?u" by simp
  finally show ?thesis unfolding ts .
qed

lemma trim_map:
  assumes "\<And>c. js_ws (f c) = js_ws c"
  shows "trim (map f s) = map f (trim s)"
proof -
  have c: "js_ws \<circ> f = js_ws" using assms by auto
  show ?thesis
    by (simp add: trim_def dropWhile_map rev_map c)
qed

lemma js_ws_arabic_to_western: "js_ws (arabic_to_western c) = js_ws c"
  by (auto simp: arabic_to_western_def is_arabic_digit_def js_ws_def)

lemma normalizeDigits_trim: "normalizeDigits (trim s) = normalizeDigits s"
  by (simp add: normalizeDigits_def trim_map [OF js_ws_arabic_to_western, symmetric] trim_trim)

lemma not_arabic_after: "\<not> is_arabic_digit (arabic_to_western c)"
  by (auto simp: arabic_to_western_def is_arabic_digit_def)

lemma normalizeDigits_no_arabic: "list_all (\<lambda>c. \<not> is_arabic_digit c) (normalizeDigits s)"
  unfolding normalizeDigits_def
  by (rule list_all_trim) (simp add: list_all_iff not_arabic_after)

lemma phone_unit_trim: "list_all phone_unit (trim s) \<longleftrightarrow> list_all phone_unit s"
  using list_all_trim [of phone_unit s] list_all_untrim [of phone_unit s]
  by (auto simp: phone_unit_def)

text \<open>
  C3 (as the claim states it, refuted). A search string of one blank is non-empty and
  consists only of whitespace, yet \<open>runSearchLike\<close> emits no payload for it: the string
  is trimmed before anything else, and an empty result clears the like filters.
\<close>

theorem runSearchLike_blank_counterexample:
  "lit '' '' \<noteq> [] \<and> list_all phone_unit (lit '' '') \<and> runSearchLike (Text (lit '' '')) = []"
  by (simp add: lit_def phone_unit_def js_ws_def runSearchLike_def trim_def)

text \<open>
  C3 (amended). For every search string that is non-empty after trimming: when it
  consists only of digits (Western or Eastern Arabic-Indic), whitespace and the characters
  \<open>+ - ( )\<close>, \<open>runSearchLike\<close> emits exactly three payloads, for \<open>mobile_no\<close>, \<open>phone\<close> and
  \<open>other_phone\<close>, each carrying the digit-normalized string (which has no Eastern
  Arabic-Indic digit left); otherwise it emits exactly one payload, for \<open>first_name\<close>,
  carrying the trimmed string.
\<close>

theorem runSearchLike_phone_or_text:
  assumes "trim s \<noteq> []"
  shows "runSearchLike (Text s) =
           (if list_all phone_unit s
              then [\<lparr>lk_fieldname = lit ''mobile_no'', lk_value = normalizeDigits s\<rparr>,
                    \<lparr>lk_fieldname = lit ''phone'', lk_value = normalizeDigits s\<rparr>,
                    \<lparr>lk_fieldname = lit ''other_phone'', lk_value = normalizeDigits s\<rparr>]
            else [\<lparr>lk_fieldname = lit ''first_name'', lk_value = trim s\<rparr>])
       \<and> list_all (\<lambda>c. \<not> is_arabic_digit c) (normalizeDigits s)"
  using assms
  by (simp add: runSearchLike_def isDigits_def phone_unit_trim normalizeDigits_trim
      normalizeDigits_no_arabic Let_def)

theorem runSearchLike_phone_or_text_witness:
  "runSearchLike (Text [1632, 1633, 1632, 32, 1633, 1634, 1635, 32, 1636, 1637, 1638, 1639]) =
     [\<lparr>lk_fieldname = lit ''mobile_no'', lk_value = lit ''010 123 4567''\<rparr>,
      \<lparr>lk_fieldname = lit ''phone'', lk_value = lit ''010 123 4567''\<rparr>,
      \<lparr>lk_fieldname = lit ''other_phone'', lk_value = lit ''010 123 4567''\<rparr>]
   \<and> runSearchLike (Text (lit '' Ann 2 ''))
      = [\<lparr>lk_fieldname = lit ''first_name'', lk_value = lit ''Ann 2''\<rparr>]"
proof -
  let ?s = "[1632, 1633, 1632, 32, 1633, 1634, 1635, 32, 1636, 1637, 1638, 1639] :: jstring"
  have a: "trim ?s \<noteq> []" by (simp add: trim_def js_ws_def)
  have b: "trim (lit '' Ann 2 '') \<noteq> []" by (simp add: trim_def js_ws_def lit_def)
  from runSearchLike_phone_or_text [OF a] runSearchLike_phone_or_text [OF b]
  show ?thesis
    by (simp add: phone_unit_def js_ws_def is_d_def is_arabic_digit_def normalizeDigits_def
        arabic_to_western_def trim_def lit_def)
qed

section \<open>\<open>toNum\<close>\<close>

subsection \<open>Rounding to a double\<close>

lemma bitlen_ge_1: "0 < x \<Longrightarrow> 1 \<le> bitlen x"
  by (auto simp: bitlen_alt_def)

lemma bitlen_le_53:
  assumes "0 < x" "x < 2 ^ 53"
  shows "1 \<le> bitlen x \<and> bitlen x \<le> 53"
proof -
  from assms(1) have b1: "1 \<le> bitlen x" by (rule bitlen_ge_1)
  from bitlen_bounds [OF assms(1)] assms(2)
  have "(2::int) ^ nat (bitlen x - 1) < 2 ^ 53" by linarith
  then have "nat (bitlen x - 1) < 53" by (rule power_less_imp_less_exp [rotated]) simp
  with b1 show ?thesis by linarith
qed

lemma bitlen_eq:
  fixes z :: int
  assumes lo: "2 ^ k \<le> z" and hi: "z < 2 ^ Suc k"
  shows "bitlen z = int k + 1"
proof -
  have "(0::int) < 2 ^ k" by simp
  with lo have pos: "0 < z" by linarith
  from bitlen_bounds [OF pos]
  have b: "2 ^ nat (bitlen z - 1) \<le> z" "z < 2 ^ nat (bitlen z)" by simp_all
  have b1: "1 \<le> bitlen z" using pos by (rule bitlen_ge_1)
  have "(2::int) ^ nat (bitlen z - 1) < 2 ^ Suc k" using b(1) hi by linarith
  then have u: "nat (bitlen z - 1) < Suc k" by (rule power_less_imp_less_exp [rotated]) simp
  have "(2::int) ^ k < 2 ^ nat (bitlen z)" using lo b(2) by linarith
  then have l: "k < nat (bitlen z)" by (rule power_less_imp_less_exp [rotated]) simp
  from u l b1 show ?thesis by linarith
qed

text \<open>\<open>log2_floor q\<close> is the exponent of the binade of \<open>q\<close>.\<close>

lemma log2_floor_bounds:
  assumes "0 < q"
  shows "2 powi (log2_floor q) \<le> q \<and> q < 2 powi (log2_floor q + 1)"
proof (cases "1 \<le> q")
  case True
  define z where "z = \<lfloor>q\<rfloor>"
  have z1: "1 \<le> z" using True by (simp add: z_def le_floor_iff)
  then have pos: "0 < z" by simp
  have b1: "1 \<le> bitlen z" using pos by (rule bitlen_ge_1)
  from bitlen_bounds [OF pos]
  have b: "2 ^ nat (bitlen z - 1) \<le> z" "z < 2 ^ nat (bitlen z)" by simp_all
  have L: "log2_floor q = bitlen z - 1" using True by (simp add: log2_floor_def z_def)
  have zq: "of_int z \<le> q" "q < of_int (z + 1)"
    using floor_correct [of q] by (simp_all only: z_def)
  have zz: "z + 1 \<le> 2 ^ nat (bitlen z)" using b(2) by simp
  have lo: "(2::rat) powi (bitlen z - 1) \<le> q"
  proof -
    have "(2::rat) powi (bitlen z - 1) = of_int (2 ^ nat (bitlen z - 1))"
      using b1 by (simp add: power_int_nonneg_exp)
    also have "\<dots> \<le> of_int z" using b(1) by (simp only: of_int_le_iff)
    also note zq(1)
    finally show ?thesis .
  qed
  have hi: "q < (2::rat) powi (bitlen z - 1 + 1)"
  proof -
    note zq(2)
    also have "rat_of_int (z + 1) \<le> of_int (2 ^ nat (bitlen z))"
      using zz by (simp only: of_int_le_iff)
    also have "\<dots> = 2 powi (bitlen z - 1 + 1)" using b1 by (simp add: power_int_nonneg_exp)
    finally show ?thesis .
  qed
  from lo hi show ?thesis unfolding L by simp
next
  case False
  define x where "x = 1 / q"
  have x1: "1 < x" using False assms by (simp add: x_def)
  then have x0: "0 < x" by simp
  have qx: "q = 1 / x" by (simp add: x_def)
  define c where "c = \<lceil>x\<rceil>"
  have "1 < c" using x1 by (simp add: c_def less_ceiling_iff)
  then have pos: "0 < c - 1" by simp
  define b where "b = bitlen (c - 1)"
  have b1: "1 \<le> b" unfolding b_def using pos by (rule bitlen_ge_1)
  from bitlen_bounds [OF pos]
  have bb: "2 ^ nat (b - 1) \<le> c - 1" "c - 1 < 2 ^ nat b" by (simp_all add: b_def)
  have L: "log2_floor q = - b"
    using False by (simp add: log2_floor_def x_def c_def b_def)
  have cx: "of_int (c - 1) < x" "x \<le> of_int c"
    by (simp_all add: c_def ceiling_correct)
  have xl: "(2::rat) ^ nat (b - 1) < x"
  proof -
    have "(2::rat) ^ nat (b - 1) = of_int (2 ^ nat (b - 1))" by simp
    also have "\<dots> \<le> of_int (c - 1)" using bb(1) by (simp only: of_int_le_iff)
    also note cx(1)
    finally show ?thesis .
  qed
  have xu: "x \<le> (2::rat) ^ nat b"
  proof -
    have "c \<le> 2 ^ nat b" using bb(2) by simp
    then have "rat_of_int c \<le> of_int (2 ^ nat b)" by (simp only: of_int_le_iff)
    also have "\<dots> = 2 ^ nat b" by simp
    finally show ?thesis using cx(2) by linarith
  qed
  have lo: "(2::rat) powi (- b) \<le> q"
  proof -
    have "(2::rat) powi (- b) = 1 / 2 ^ nat b"
      using b1 by (simp add: power_int_minus power_int_nonneg_exp field_simps)
    also have "\<dots> \<le> 1 / x" using xu x0 by (intro divide_left_mono) simp_all
    finally show ?thesis unfolding qx .
  qed
  have hi: "q < (2::rat) powi (- b + 1)"
  proof -
    have "1 / x < 1 / 2 ^ nat (b - 1)"
      using xl x0 by (intro divide_strict_left_mono) simp_all
    also have "\<dots> = 2 powi (- (b - 1))"
    proof -
      have "(2::rat) powi (b - 1) = 2 ^ nat (b - 1)"
        using b1 by (simp add: power_int_nonneg_exp)
      then show ?thesis by (simp only: power_int_minus inverse_eq_divide)
    qed
    also have "- (b - 1) = - b + 1" by simp
    finally show ?thesis unfolding qx .
  qed
  from lo hi show ?thesis unfolding L by simp
qed

lemma log2_floor_eq:
  assumes "2 powi e \<le> q" "q < 2 powi (e + 1)"
  shows "log2_floor q = e"
proof -
  have "(0::rat) < 2 powi e" by simp
  with assms(1) have "0 < q" by linarith
  from log2_floor_bounds [OF this]
  have b: "2 powi (log2_floor q) \<le> q" "q < 2 powi (log2_floor q + 1)" by simp_all
  have "\<not> log2_floor q + 1 \<le> e"
  proof
    assume "log2_floor q + 1 \<le> e"
    then have "(2::rat) powi (log2_floor q + 1) \<le> 2 powi e"
      by (intro power_int_increasing) simp_all
    with b(2) assms(1) show False by linarith
  qed
  moreover have "\<not> e + 1 \<le> log2_floor q"
  proof
    assume "e + 1 \<le> log2_floor q"
    then have "(2::rat) powi (e + 1) \<le> 2 powi (log2_floor q)"
      by (intro power_int_increasing) simp_all
    with b(1) assms(2) show False by linarith
  qed
  ultimately show ?thesis by linarith
qed

text \<open>A double is rounded to itself: \<open>k * 2 ^ p\<close> with \<open>k < 2 ^ 53\<close> and, above the
  subnormal range, \<open>2 ^ 52 \<le> k\<close>.\<close>

lemma round_double_exact:
  fixes k :: int
  assumes k: "0 < k" "k < 2 ^ 53" and p: "- 1074 \<le> p"
    and n: "2 ^ 52 \<le> k \<or> p = - 1074"
    and fin: "of_int k * 2 powi p < (2::rat) ^ 1024"
  shows "round_double (of_int k * 2 powi p) = Fin (of_int k * 2 powi p)"
proof -
  let ?v = "rat_of_int k * 2 powi p"
  have v0: "?v \<noteq> 0" using k by simp
  define b where "b = bitlen k"
  from bitlen_le_53 [OF k] have b: "1 \<le> b" "b \<le> 53" by (simp_all add: b_def)
  from bitlen_bounds [OF k(1)]
  have kb: "2 ^ nat (b - 1) \<le> k" "k < 2 ^ nat b" by (simp_all add: b_def)
  have L: "log2_floor ?v = b - 1 + p"
  proof (rule log2_floor_eq)
    have "(2::rat) powi (b - 1 + p) = 2 powi (b - 1) * 2 powi p"
      by (simp add: power_int_add)
    also have "(2::rat) powi (b - 1) = of_int (2 ^ nat (b - 1))"
      using b by (simp add: power_int_nonneg_exp)
    also have "rat_of_int (2 ^ nat (b - 1)) * 2 powi p \<le> of_int k * 2 powi p"
      using kb(1) by (intro mult_right_mono) (simp_all only: of_int_le_iff zero_le_power_int zero_le_numeral)
    finally show "2 powi (b - 1 + p) \<le> ?v" .
    have "?v < of_int (2 ^ nat b) * 2 powi p"
      using kb(2) by (intro mult_strict_right_mono) (simp_all only: of_int_less_iff zero_less_power_int zero_less_numeral)
    also have "rat_of_int (2 ^ nat b) = 2 powi b"
      using b by (simp add: power_int_nonneg_exp)
    also have "(2::rat) powi b * 2 powi p = 2 powi (b - 1 + p + 1)"
      by (simp add: power_int_add [symmetric])
    finally show "?v < 2 powi (b - 1 + p + 1)" .
  qed
  have P: "max (log2_floor ?v) (- 1022) - 52 = p"
  proof (cases "2 ^ 52 \<le> k")
    case True
    then have "b = 53" using bitlen_eq [of 52 k] k(2) by (simp add: b_def)
    with p show ?thesis by (simp add: L)
  next
    case False
    with n have pp: "p = - 1074" by simp
    from False kb(1) have "(2::int) ^ nat (b - 1) < 2 ^ 52" by linarith
    then have "nat (b - 1) < 52" by (rule power_less_imp_less_exp [rotated]) simp
    then show ?thesis unfolding L using b pp by simp
  qed
  have m: "?v / 2 powi p = of_int k" by simp
  show ?thesis
    unfolding round_double_def Let_def P m using v0 fin by simp
qed

text \<open>Rounding gives a double.\<close>

lemma round_double_idem:
  assumes q0: "0 \<le> q" and r: "round_double q = Fin v"
  shows "round_double v = Fin v"
proof (cases "q = 0")
  case True
  with r show ?thesis by (simp add: round_double_def)
next
  case False
  with q0 have qpos: "0 < q" by simp
  define e where "e = log2_floor q"
  define P where "P = max e (- 1022) - 52"
  define m where "m = q / 2 powi P"
  define n where "n = \<lfloor>m\<rfloor>"
  define n' where
    "n' = (if 1 / 2 < m - of_int n \<or> (m - of_int n = 1 / 2 \<and> odd n) then n + 1 else n)"
  have rd: "round_double q =
      (if 2 ^ 1024 \<le> rat_of_int n' * 2 powi P then PosInf else Fin (of_int n' * 2 powi P))"
    unfolding round_double_def Let_def n'_def n_def m_def P_def e_def
    using False by simp
  with r have fin: "rat_of_int n' * 2 powi P < 2 ^ 1024" and v: "v = of_int n' * 2 powi P"
    by (auto split: if_splits)
  from log2_floor_bounds [OF qpos]
  have eb: "2 powi e \<le> q" "q < 2 powi (e + 1)" by (simp_all add: e_def)
  have Pge: "- 1074 \<le> P" by (simp add: P_def)
  have PP: "(0::rat) < 2 powi P" by simp
  have m_pos: "0 < m" using qpos by (simp add: m_def)
  have m_hi: "m < 2 ^ 53"
  proof -
    have "e + 1 \<le> P + 53" by (simp add: P_def)
    then have "(2::rat) powi (e + 1) \<le> 2 powi (P + 53)"
      by (intro power_int_increasing) simp_all
    also have "\<dots> = 2 powi P * 2 ^ 53" by (simp add: power_int_add)
    finally have "q < 2 powi P * 2 ^ 53" using eb(2) by linarith
    then show ?thesis unfolding m_def using PP by (simp add: field_simps)
  qed
  have n0: "0 \<le> n" using m_pos by (simp add: n_def)
  have "m < of_int (2 ^ 53)" using m_hi by simp
  then have n_hi: "n < 2 ^ 53" unfolding n_def by (simp only: floor_less_iff)
  have n'b: "n \<le> n'" "n' \<le> n + 1" by (simp_all add: n'_def)
  have side: "2 ^ 52 \<le> n' \<or> P = - 1074"
  proof (cases "- 1022 \<le> e")
    case True
    then have Pe: "P = e - 52" by (simp add: P_def)
    have "(2::rat) powi e = 2 powi P * 2 ^ 52" by (simp add: Pe power_int_diff)
    with eb(1) have "2 powi P * 2 ^ 52 \<le> q" by simp
    then have "2 ^ 52 \<le> m" unfolding m_def using PP by (simp add: field_simps)
    then have "of_int (2 ^ 52) \<le> m" by simp
    then have "2 ^ 52 \<le> n" unfolding n_def by (simp only: le_floor_iff)
    with n'b show ?thesis by linarith
  next
    case False
    then show ?thesis by (simp add: P_def)
  qed
  consider "n' = 0" | "n' = 2 ^ 53" | "0 < n'" "n' < 2 ^ 53"
    using n0 n_hi n'b by linarith
  then show ?thesis
  proof cases
    case 1
    then show ?thesis by (simp add: v round_double_def)
  next
    case 2
    have vv: "v = of_int (2 ^ 52) * 2 powi (P + 1)"
      by (simp add: v 2 power_int_add)
    have "round_double (of_int (2 ^ 52) * 2 powi (P + 1)) = Fin (of_int (2 ^ 52) * 2 powi (P + 1))"
      using Pge fin [unfolded v [symmetric]] unfolding vv
      by (intro round_double_exact) simp_all
    then show ?thesis unfolding vv .
  next
    case 3
    have "round_double (of_int n' * 2 powi P) = Fin (of_int n' * 2 powi P)"
      using 3 Pge side fin by (intro round_double_exact)
    then show ?thesis unfolding v .
  qed
qed

text \<open>The result is \<open>Infinity\<close> from \<open>2 ^ 1024 - 2 ^ 970\<close> on: the midpoint between the
  largest double and \<open>2 ^ 1024\<close>, a tie that goes to the even side.\<close>

lemma round_double_PosInf_iff:
  assumes q0: "0 \<le> q"
  shows "round_double q = PosInf \<longleftrightarrow> 2 ^ 1024 - 2 ^ 970 \<le> q"
proof (cases "q = 0")
  case True
  then show ?thesis by (simp add: round_double_def)
next
  case False
  with q0 have qpos: "0 < q" by simp
  define e where "e = log2_floor q"
  define P where "P = max e (- 1022) - 52"
  define m where "m = q / 2 powi P"
  define n where "n = \<lfloor>m\<rfloor>"
  define n' where
    "n' = (if 1 / 2 < m - of_int n \<or> (m - of_int n = 1 / 2 \<and> odd n) then n + 1 else n)"
  have rd: "round_double q =
      (if 2 ^ 1024 \<le> rat_of_int n' * 2 powi P then PosInf else Fin (of_int n' * 2 powi P))"
    unfolding round_double_def Let_def n'_def n_def m_def P_def e_def
    using False by simp
  then have lhs: "round_double q = PosInf \<longleftrightarrow> 2 ^ 1024 \<le> rat_of_int n' * 2 powi P"
    by simp
  from log2_floor_bounds [OF qpos]
  have eb: "2 powi e \<le> q" "q < 2 powi (e + 1)" by (simp_all add: e_def)
  have PP: "(0::rat) < 2 powi P" by simp
  have m_pos: "0 < m" using qpos by (simp add: m_def)
  have m_hi: "m < 2 ^ 53"
  proof -
    have "e + 1 \<le> P + 53" by (simp add: P_def)
    then have "(2::rat) powi (e + 1) \<le> 2 powi (P + 53)"
      by (intro power_int_increasing) simp_all
    also have "\<dots> = 2 powi P * 2 ^ 53" by (simp add: power_int_add)
    finally have "q < 2 powi P * 2 ^ 53" using eb(2) by linarith
    then show ?thesis unfolding m_def using PP by (simp add: field_simps)
  qed
  have n0: "0 \<le> n" using m_pos by (simp add: n_def)
  have "m < of_int (2 ^ 53)" using m_hi by simp
  then have n_hi: "n < 2 ^ 53" unfolding n_def by (simp only: floor_less_iff)
  have n'b: "n \<le> n'" "n' \<le> n + 1" by (simp_all add: n'_def)
  have mn: "of_int n \<le> m" "m < of_int n + 1" unfolding n_def by linarith+
  consider "e \<le> 1022" | "e = 1023" | "1024 \<le> e" by linarith
  then show ?thesis
  proof cases
    case 1
    then have "P \<le> 970" by (simp add: P_def)
    then have "(2::rat) powi P \<le> 2 powi 970" by (intro power_int_increasing) simp_all
    moreover have "n' \<le> 2 ^ 53" using n'b n_hi by linarith
    then have "rat_of_int n' \<le> of_int (2 ^ 53)" by (simp only: of_int_le_iff)
    moreover have "0 \<le> rat_of_int n'" using n0 n'b by simp
    ultimately have "rat_of_int n' * 2 powi P \<le> of_int (2 ^ 53) * 2 powi 970"
      by (intro mult_mono) simp_all
    also have "\<dots> < 2 ^ 1024" by simp
    finally have a: "\<not> 2 ^ 1024 \<le> rat_of_int n' * 2 powi P" by simp
    from 1 have "(2::rat) powi (e + 1) \<le> 2 powi 1023"
      by (intro power_int_increasing) simp_all
    with eb(2) have "q < 2 powi 1023" by linarith
    also have "(2::rat) powi 1023 < 2 ^ 1024 - 2 ^ 970" by simp
    finally have b: "\<not> 2 ^ 1024 - 2 ^ 970 \<le> q" by simp
    from a b show ?thesis unfolding lhs by simp
  next
    case 3
    then have Pe: "P = e - 52" by (simp add: P_def)
    have "(2::rat) powi e = 2 powi P * 2 ^ 52" by (simp add: Pe power_int_diff)
    with eb(1) have "2 powi P * 2 ^ 52 \<le> q" by simp
    then have "2 ^ 52 \<le> m" unfolding m_def using PP by (simp add: field_simps)
    then have "of_int (2 ^ 52) \<le> m" by simp
    then have "2 ^ 52 \<le> n" unfolding n_def by (simp only: le_floor_iff)
    with n'b have "2 ^ 52 \<le> n'" by linarith
    then have n52: "rat_of_int (2 ^ 52) \<le> of_int n'" by (simp only: of_int_le_iff)
    from 3 have "972 \<le> P" by (simp add: Pe)
    then have "(2::rat) powi 972 \<le> 2 powi P" by (intro power_int_increasing) simp_all
    with n52 have "rat_of_int (2 ^ 52) * 2 powi 972 \<le> of_int n' * 2 powi P"
      by (intro mult_mono) simp_all
    moreover have "rat_of_int (2 ^ 52) * 2 powi 972 = 2 ^ 1024" by simp
    ultimately have a: "2 ^ 1024 \<le> rat_of_int n' * 2 powi P" by simp
    from 3 have "(2::rat) powi 1024 \<le> 2 powi e" by (intro power_int_increasing) simp_all
    with eb(1) have "2 powi 1024 \<le> q" by linarith
    moreover have "(2::rat) ^ 1024 - 2 ^ 970 \<le> 2 powi 1024" by simp
    ultimately have b: "2 ^ 1024 - 2 ^ 970 \<le> q" by linarith
    from a b show ?thesis unfolding lhs by simp
  next
    case 2
    then have Pv: "P = 971" by (simp add: P_def)
    have p2: "(2::rat) powi 971 = 2 ^ 971" by simp
    have qm: "q = m * 2 ^ 971" by (simp add: m_def Pv)
    have L: "2 ^ 1024 \<le> rat_of_int n' * 2 powi P \<longleftrightarrow> 2 ^ 53 \<le> n'"
    proof -
      have "(2::rat) ^ 1024 = of_int (2 ^ 53) * 2 ^ 971" by simp
      then have "2 ^ 1024 \<le> rat_of_int n' * 2 powi P
          \<longleftrightarrow> of_int (2 ^ 53) * 2 ^ 971 \<le> rat_of_int n' * 2 ^ 971"
        by (simp only: Pv p2)
      also have "\<dots> \<longleftrightarrow> rat_of_int (2 ^ 53) \<le> of_int n'"
        by (rule mult_le_cancel_right_pos) simp
      also have "\<dots> \<longleftrightarrow> 2 ^ 53 \<le> n'" by (simp only: of_int_le_iff)
      finally show ?thesis .
    qed
    have R: "2 ^ 1024 - 2 ^ 970 \<le> q \<longleftrightarrow> 2 ^ 53 - 1 / 2 \<le> m"
    proof -
      have "(2::rat) ^ 1024 - 2 ^ 970 = (2 ^ 53 - 1 / 2) * 2 ^ 971" by simp
      then have "2 ^ 1024 - 2 ^ 970 \<le> q \<longleftrightarrow> (2 ^ 53 - 1 / 2) * 2 ^ 971 \<le> m * 2 ^ 971"
        by (simp only: qm)
      also have "\<dots> \<longleftrightarrow> 2 ^ 53 - 1 / 2 \<le> m"
        by (rule mult_le_cancel_right_pos) simp
      finally show ?thesis .
    qed
    have "2 ^ 53 \<le> n' \<longleftrightarrow> 2 ^ 53 - 1 / 2 \<le> m"
    proof
      assume h: "2 ^ 53 \<le> n'"
      with n_hi n'b have nn: "n = 2 ^ 53 - 1" and up: "n' = n + 1" by linarith+
      from up have "1 / 2 < m - of_int n \<or> m - of_int n = 1 / 2"
        by (auto simp: n'_def split: if_splits)
      then have "of_int n + 1 / 2 \<le> m" by linarith
      then show "2 ^ 53 - 1 / 2 \<le> m" unfolding nn by simp
    next
      assume h: "2 ^ 53 - 1 / 2 \<le> m"
      then have "of_int (2 ^ 53 - 1) \<le> m" by simp
      then have "2 ^ 53 - 1 \<le> n" unfolding n_def by (simp only: le_floor_iff)
      with n_hi have nn: "n = 2 ^ 53 - 1" by linarith
      have odd: "odd n" unfolding nn by simp
      have "1 / 2 \<le> m - of_int n" using h unfolding nn by simp
      then have "1 / 2 < m - of_int n \<or> (m - of_int n = 1 / 2 \<and> odd n)"
        using odd by linarith
      then have "n' = n + 1" by (simp add: n'_def)
      then show "2 ^ 53 \<le> n'" unfolding nn by simp
    qed
    then show ?thesis unfolding lhs L R .
  qed
qed

lemma floor_rat_numeral: "\<lfloor>numeral a / numeral b :: rat\<rfloor> = numeral a div numeral b"
  using floor_divide_of_int_eq [of "numeral a" "numeral b", where ?'a = rat] by simp

lemma round_double_cases: "round_double q = PosInf \<or> (\<exists>v. round_double q = Fin v)"
  by (simp add: round_double_def Let_def)

text \<open>A natural number below \<open>2 ^ 53\<close> is a double: rounding leaves it as it is.\<close>

lemma round_double_nat:
  assumes "n < 2 ^ 53"
  shows "round_double (of_nat n) = Fin (of_nat n)"
proof (cases "n = 0")
  case True
  then show ?thesis by (simp add: round_double_def)
next
  case False
  then have pos: "0 < int n" by simp
  from assms have "int n < 2 ^ 53"
    by simp
  from bitlen_le_53 [OF pos this]
  have b: "1 \<le> bitlen (int n)" "bitlen (int n) \<le> 53" by simp_all
  define k where "k = nat (53 - bitlen (int n))"
  have one: "(1::rat) \<le> of_nat n" using False by simp
  have L: "log2_floor (of_nat n) = bitlen (int n) - 1"
    using one by (simp add: log2_floor_def)
  have P: "max (log2_floor (rat_of_nat n)) (- 1022) - 52 = - int k"
    using b by (simp add: L k_def)
  have pw: "(2::rat) powi (- int k) = 1 / 2 ^ k"
    by (simp add: power_int_minus field_simps)
  have m: "rat_of_nat n / (1 / 2 ^ k) = of_int (int n * 2 ^ k)" by simp
  have v: "rat_of_int (int n * 2 ^ k) * (1 / 2 ^ k) = of_nat n" by simp
  have lt: "rat_of_nat n < 2 ^ 1024"
  proof -
    have "rat_of_nat n < of_nat (2 ^ 53)" using assms by (simp only: of_nat_less_iff)
    also have "\<dots> < 2 ^ 1024" by simp
    finally show ?thesis .
  qed
  show ?thesis
    unfolding round_double_def P pw m Let_def
    using False lt by (simp only: floor_of_int v) simp
qed

lemma times_num_nat:
  assumes "n * m < 2 ^ 53"
  shows "times_num (Fin (of_nat n)) (of_nat m) = Fin (of_nat (n * m))"
  using round_double_nat [OF assms] by simp

subsection \<open>The clean-up of the text\<close>

lemma js_ws_lower_unit: "js_ws (lower_unit c) = js_ws c"
  by (auto simp: lower_unit_def js_ws_def)

lemma filter_ws_map:
  assumes g: "\<And>c. js_ws (g c) = js_ws c" and a: "list_all js_ws A"
  shows "filter (\<lambda>c. \<not> js_ws c) (map g A) = []"
  using a by (induction A) (simp_all add: g)

lemma filter_ws_trim:
  assumes g: "\<And>c. js_ws (g c) = js_ws c"
  shows "filter (\<lambda>c. \<not> js_ws c) (map g (trim t)) = filter (\<lambda>c. \<not> js_ws c) (map g t)"
proof -
  let ?A = "takeWhile js_ws t"
  let ?B = "rev (takeWhile js_ws (rev (dropWhile js_ws t)))"
  have A: "list_all js_ws ?A" by (auto simp: list_all_iff dest: set_takeWhileD)
  have B: "list_all js_ws ?B" by (auto simp: list_all_iff dest: set_takeWhileD)
  have "filter (\<lambda>c. \<not> js_ws c) (map g (?A @ trim t @ ?B))
        = filter (\<lambda>c. \<not> js_ws c) (map g (trim t))"
    by (simp only: map_append filter_append filter_ws_map [OF g A] filter_ws_map [OF g B]
        append_Nil append_Nil2)
  then show ?thesis using trim_decomp [of t] by simp
qed

text \<open>The clean-up, one code unit at a time.\<close>

lemma toNum_clean_closed:
  "toNum_clean t =
     filter (\<lambda>c. \<not> js_ws c \<and> c \<noteq> 44 \<and> c \<noteq> 1548)
       (map (\<lambda>c. arabic_to_western (lower_unit c)) t)"
proof -
  have g: "\<And>c. js_ws (arabic_to_western (lower_unit c)) = js_ws c"
    by (simp add: js_ws_arabic_to_western js_ws_lower_unit)
  have "filter (\<lambda>c. \<not> js_ws c) (map (\<lambda>c. arabic_to_western (lower_unit c)) (trim t))
      = filter (\<lambda>c. \<not> js_ws c) (map (\<lambda>c. arabic_to_western (lower_unit c)) t)"
    by (rule filter_ws_trim [OF g])
  then show ?thesis
    by (simp add: toNum_clean_def toLowerCase_def comp_def conj_commute)
qed

lemma clean_unit_arabic:
  "arabic_to_western (lower_unit (arabic_to_western c)) = arabic_to_western (lower_unit c)"
  by (auto simp: arabic_to_western_def lower_unit_def is_arabic_digit_def)

lemma toNum_clean_arabic: "toNum_clean (map arabic_to_western s) = toNum_clean s"
  by (simp add: toNum_clean_closed comp_def clean_unit_arabic)

lemma toNum_arabic: "toNum (Text (map arabic_to_western s)) = toNum (Text s)"
  by (simp add: toNum_def toNum_clean_arabic)

lemma sep_clean_unit:
  "arabic_to_western (lower_unit c) = 44 \<longleftrightarrow> c = 44"
  "arabic_to_western (lower_unit c) = 1548 \<longleftrightarrow> c = 1548"
  by (auto simp: arabic_to_western_def lower_unit_def is_arabic_digit_def)

lemma toNum_clean_separators:
  "toNum_clean (filter (\<lambda>c. c \<noteq> 44 \<and> c \<noteq> 1548) s) = toNum_clean s"
  unfolding toNum_clean_closed
  by (induction s) (auto simp: sep_clean_unit)

lemma toNum_clean_only_separators:
  "filter (\<lambda>c. c \<noteq> 44 \<and> c \<noteq> 1548) s = [] \<Longrightarrow> toNum_clean s = []"
  using toNum_clean_separators [of s] by (simp add: toNum_clean_closed)

lemma toNum_of_clean_empty: "toNum_clean t = [] \<Longrightarrow> toNum (Text t) = None"
  by (simp add: toNum_def toNum_suffix_def endsWith_def)

lemma toNum_separators:
  "toNum (Text (filter (\<lambda>c. c \<noteq> 44 \<and> c \<noteq> 1548) s)) = toNum (Text s)"
proof (cases "filter (\<lambda>c. c \<noteq> 44 \<and> c \<noteq> 1548) s = []")
  case True
  then have "toNum (Text s) = None"
    by (intro toNum_of_clean_empty toNum_clean_only_separators)
  with True show ?thesis by (simp add: toNum_def)
next
  case False
  then have "s \<noteq> []" by auto
  with False show ?thesis
    by (simp add: toNum_def toNum_clean_separators)
qed

lemma clean_unit_keeps:
  assumes "is_d c \<or> c = 107 \<or> c = 109 \<or> c = 98"
  shows "arabic_to_western (lower_unit c) = c" "\<not> js_ws c" "c \<noteq> 44" "c \<noteq> 1548"
proof -
  from assms have r: "48 \<le> c \<and> c \<le> 57 \<or> c = 107 \<or> c = 109 \<or> c = 98"
    by (simp add: is_d_def)
  then have l: "lower_unit c = c" by (auto simp: lower_unit_def)
  from r have "\<not> is_arabic_digit c" by (auto simp: is_arabic_digit_def)
  then show "arabic_to_western (lower_unit c) = c" by (simp add: l arabic_to_western_def)
  from r show "\<not> js_ws c" unfolding js_ws_def by arith
  from r show "c \<noteq> 44" "c \<noteq> 1548" by arith+
qed

lemma toNum_clean_digits:
  "list_all (\<lambda>c. is_d c \<or> c = 107 \<or> c = 109 \<or> c = 98) d \<Longrightarrow> toNum_clean d = d"
  unfolding toNum_clean_closed
  by (induction d) (simp_all add: clean_unit_keeps)

lemma Number_of_digits:
  "list_all is_d d \<Longrightarrow> Number_of d = round_double (of_nat (digits_value d))"
proof -
  assume "list_all is_d d"
  then have tw: "takeWhile is_d d = d" and dw: "dropWhile is_d d = []"
    by (simp_all add: list_all_iff)
  show ?thesis unfolding Number_of_def Let_def tw dw by simp
qed

lemma filter_digits_id: "list_all is_d d \<Longrightarrow> filter (\<lambda>c. is_d c \<or> c = 46) d = d"
  by (induction d) auto

lemma toNum_suffix_k: "toNum_suffix (d @ [107]) = (1000, d)"
  by (simp add: toNum_suffix_def endsWith_def)

lemma toNum_suffix_m: "toNum_suffix (d @ [109]) = (1000000, d)"
  by (simp add: toNum_suffix_def endsWith_def)

lemma toNum_suffix_b: "toNum_suffix (d @ [98]) = (1000000000, d)"
  by (simp add: toNum_suffix_def endsWith_def)

text \<open>A string of digits with one of the suffixes, as long as the product is below
  \<open>2 ^ 53\<close>, where every natural number is a double.\<close>

lemma toNum_digits_suffix:
  assumes d: "d \<noteq> []" "list_all is_d d"
    and x: "x = 107 \<or> x = 109 \<or> x = 98"
    and s: "toNum_suffix (d @ [x]) = (of_nat m, d)"
    and m: "0 < m"
    and b: "digits_value d * m < 2 ^ 53"
  shows "toNum (Text (d @ [x])) = Some (Fin (of_nat (digits_value d * m)))"
proof -
  have "digits_value d \<le> digits_value d * m" using m by simp
  then have nb: "digits_value d < 2 ^ 53" using b by (rule le_less_trans)
  have "list_all (\<lambda>c. is_d c \<or> c = 107 \<or> c = 109 \<or> c = 98) (d @ [x])"
    using d x by (auto simp: list_all_iff)
  then have c: "toNum_clean (d @ [x]) = d @ [x]" by (rule toNum_clean_digits)
  have N: "Number_of d = Fin (of_nat (digits_value d))"
    using d nb by (simp add: Number_of_digits round_double_nat)
  have "toNum (Text (d @ [x])) = Some (times_num (Fin (of_nat (digits_value d))) (of_nat m))"
    using d by (simp add: toNum_def c s filter_digits_id N)
  then show ?thesis by (simp only: times_num_nat [OF b])
qed

lemma toNum_digits_plain:
  assumes d: "d \<noteq> []" "list_all is_d d"
    and b: "digits_value d < 2 ^ 53"
  shows "toNum (Text d) = Some (Fin (of_nat (digits_value d)))"
proof -
  have "list_all (\<lambda>c. is_d c \<or> c = 107 \<or> c = 109 \<or> c = 98) d"
    using d by (auto simp: list_all_iff)
  then have c: "toNum_clean d = d" by (rule toNum_clean_digits)
  have "is_d (last d)" using d by (auto simp: list_all_iff)
  then have s: "toNum_suffix d = (1, d)"
    by (auto simp: toNum_suffix_def endsWith_def is_d_def)
  have N: "Number_of d = Fin (of_nat (digits_value d))"
    using d b by (simp add: Number_of_digits round_double_nat)
  have b1: "digits_value d * 1 < 2 ^ 53" using b by simp
  have "toNum (Text d) = Some (times_num (Fin (of_nat (digits_value d))) (of_nat 1))"
    using d by (simp add: toNum_def c s filter_digits_id N del: times_num.simps)
  then show ?thesis by (simp only: times_num_nat [OF b1] mult_1_right)
qed

text \<open>\<open>Number\<close> on a string of digits and dots: \<open>NaN\<close> exactly when the string has no digit
  (and is not empty) or more than one dot.\<close>

lemma Number_of_NaN_iff:
  assumes r: "list_all (\<lambda>c. is_d c \<or> c = 46) r"
  shows "Number_of r = NaN \<longleftrightarrow>
           (r \<noteq> [] \<and> \<not> list_ex is_d r) \<or> 2 \<le> length (filter (\<lambda>c. c = 46) r)"
proof -
  let ?ip = "takeWhile is_d r" and ?rest = "dropWhile is_d r"
  have nd: "\<not> is_d 46" by (simp add: is_d_def)
  have split: "r = ?ip @ ?rest" by simp
  have ip: "list_all is_d ?ip" by (auto simp: list_all_iff dest: set_takeWhileD)
  have nodots: "\<And>xs. list_all is_d xs \<Longrightarrow> filter (\<lambda>c. c = 46) xs = []"
    using nd by (auto simp: list_all_iff filter_empty_conv)
  have nn: "\<And>q. round_double q \<noteq> NaN"
    using round_double_cases by (metis jsnum.distinct(1) jsnum.distinct(5))
  show ?thesis
  proof (cases "?rest = []")
    case True
    then have all: "list_all is_d r" by (simp add: list_all_iff)
    then have "r \<noteq> [] \<Longrightarrow> list_ex is_d r" by (cases r) (auto)
    with True nodots [OF all] show ?thesis
      by (auto simp: Number_of_def Let_def nn)
  next
    case False
    then obtain c t where ct: "?rest = c # t" by (cases ?rest) auto
    from hd_dropWhile_not [OF False] ct have "\<not> is_d c" by simp
    moreover have "c \<in> set r" using ct by (metis list.set_intros(1) set_dropWhileD)
    ultimately have c: "c = 46" using r by (auto simp: list_all_iff)
    have rne: "r \<noteq> []" using False by auto
    have rr: "r = ?ip @ 46 # t" using split ct c by simp
    have dots_r: "length (filter (\<lambda>c. c = 46) r) = Suc (length (filter (\<lambda>c. c = 46) t))"
      by (subst rr) (simp add: nodots [OF ip])
    have t_sub: "set t \<subseteq> set r"
    proof
      fix y assume "y \<in> set t"
      then have "y \<in> set ?rest" by (simp add: ct)
      then show "y \<in> set r" by (rule set_dropWhileD)
    qed
    show ?thesis
    proof (cases "list_all is_d t")
      case True
      have ex: "list_ex is_d r \<longleftrightarrow> ?ip \<noteq> [] \<or> t \<noteq> []"
      proof -
        have "list_ex is_d r \<longleftrightarrow> list_ex is_d ?ip \<or> list_ex is_d t"
          by (subst rr) (simp add: nd)
        moreover have "list_ex is_d ?ip \<longleftrightarrow> ?ip \<noteq> []"
          using ip by (cases ?ip) auto
        moreover have "list_ex is_d t \<longleftrightarrow> t \<noteq> []"
          using True by (cases t) auto
        ultimately show ?thesis by simp
      qed
      have N: "Number_of r = NaN \<longleftrightarrow> ?ip = [] \<and> t = []"
        unfolding Number_of_def Let_def ct using True c by (simp add: nn)
      show ?thesis
        unfolding N dots_r using rne ex nodots [OF True] by auto
    next
      case False
      then obtain y where y: "y \<in> set t" "\<not> is_d y" by (auto simp: list_all_iff)
      with t_sub r have "y = 46" by (auto simp: list_all_iff)
      with y have "filter (\<lambda>c. c = 46) t \<noteq> []" by (auto simp: filter_empty_conv)
      then have two: "2 \<le> length (filter (\<lambda>c. c = 46) r)"
        unfolding dots_r by (cases "filter (\<lambda>c. c = 46) t") auto
      have "Number_of r = NaN"
        unfolding Number_of_def Let_def ct using False by simp
      with two show ?thesis by simp
    qed
  qed
qed

lemma Number_of_cases:
  "Number_of r = NaN \<or> Number_of r = PosInf \<or> (\<exists>v. Number_of r = Fin v)"
  using round_double_cases by (auto simp: Number_of_def Let_def)

text \<open>\<open>toNum\<close> is \<open>null\<close> exactly when what is left of the text, after the clean-up and
  the deletion of everything that is neither a digit nor a dot, has no digit or more than
  one dot, or denotes a number that is too large for a finite double.\<close>

lemma toNum_None_iff:
  "toNum (Text s) = None \<longleftrightarrow>
     (let r = filter (\<lambda>c. is_d c \<or> c = 46) (snd (toNum_suffix (toNum_clean s)))
      in \<not> list_ex is_d r \<or> 2 \<le> length (filter (\<lambda>c. c = 46) r) \<or> Number_of r = PosInf)"
proof -
  obtain m t where sf: "toNum_suffix (toNum_clean s) = (m, t)" by fastforce
  define r where "r = filter (\<lambda>c. is_d c \<or> c = 46) t"
  have r: "list_all (\<lambda>c. is_d c \<or> c = 46) r" by (simp add: r_def list_all_iff)
  have rhs: "(let r = filter (\<lambda>c. is_d c \<or> c = 46) (snd (toNum_suffix (toNum_clean s)))
      in \<not> list_ex is_d r \<or> 2 \<le> length (filter (\<lambda>c. c = 46) r) \<or> Number_of r = PosInf)
     \<longleftrightarrow> \<not> list_ex is_d r \<or> 2 \<le> length (filter (\<lambda>c. c = 46) r) \<or> Number_of r = PosInf"
    by (simp add: sf r_def Let_def)
  show ?thesis
  proof (cases "s = []")
    case True
    then have "r = []"
      using sf by (auto simp: r_def toNum_clean_def trim_def toLowerCase_def toNum_suffix_def
          endsWith_def)
    with True show ?thesis unfolding rhs by (simp add: toNum_def)
  next
    case False
    show ?thesis
    proof (cases "r = []")
      case True
      then have "toNum (Text s) = None"
        using False sf by (simp add: toNum_def r_def)
      with True show ?thesis unfolding rhs by simp
    next
      case ne: False
      have lhs: "toNum (Text s) = None \<longleftrightarrow> Number_of r = NaN \<or> Number_of r = PosInf"
        using False ne sf Number_of_cases [of r]
        by (auto simp: toNum_def r_def [symmetric] Let_def)
      show ?thesis
        unfolding rhs lhs Number_of_NaN_iff [OF r] using ne by auto
    qed
  qed
qed

subsection \<open>The multiplier\<close>

lemma Number_of_round:
  "Number_of r = NaN \<or> (\<exists>q. 0 \<le> q \<and> Number_of r = round_double q)"
proof -
  define A :: rat where "A = of_nat (digits_value (takeWhile is_d r))"
  define B :: rat where
    "B = of_nat (digits_value (takeWhile is_d r))
         + of_nat (digits_value (tl (dropWhile is_d r))) / 10 ^ length (tl (dropWhile is_d r))"
  have "Number_of r = NaN \<or> Number_of r = round_double A \<or> Number_of r = round_double B"
    unfolding Number_of_def Let_def A_def B_def by simp
  moreover have "0 \<le> A" "0 \<le> B" by (simp_all add: A_def B_def)
  ultimately show ?thesis by blast
qed

text \<open>\<open>Number\<close> gives \<open>Infinity\<close> for a decimal value of \<open>2 ^ 1024 - 2 ^ 970\<close> (about
  \<open>1.8e308\<close>) or more.\<close>

lemma Number_of_PosInf_iff:
  "Number_of r = PosInf \<longleftrightarrow>
     Number_of r \<noteq> NaN \<and>
     2 ^ 1024 - 2 ^ 970 \<le>
       (of_nat (digits_value (takeWhile is_d r))
        + of_nat (digits_value (tl (dropWhile is_d r))) / 10 ^ length (tl (dropWhile is_d r))
        :: rat)"
proof -
  define A :: rat where "A = of_nat (digits_value (takeWhile is_d r))"
  define B :: rat where
    "B = of_nat (digits_value (takeWhile is_d r))
         + of_nat (digits_value (tl (dropWhile is_d r))) / 10 ^ length (tl (dropWhile is_d r))"
  have AB: "B = A" if h: "dropWhile is_d r = []"
    unfolding A_def B_def h by (simp add: digits_value_def)
  have nn: "\<And>q. round_double q \<noteq> NaN"
    using round_double_cases by (metis jsnum.distinct(1) jsnum.distinct(5))
  have a: "round_double A = PosInf \<longleftrightarrow> 2 ^ 1024 - 2 ^ 970 \<le> A"
    by (rule round_double_PosInf_iff) (simp add: A_def)
  have b: "round_double B = PosInf \<longleftrightarrow> 2 ^ 1024 - 2 ^ 970 \<le> B"
    by (rule round_double_PosInf_iff) (simp add: B_def)
  show ?thesis
  proof (cases "dropWhile is_d r = []")
    case True
    then have N: "Number_of r = round_double A"
      unfolding Number_of_def Let_def A_def by simp
    show ?thesis
      unfolding B_def [symmetric] N AB [OF True] using a nn by simp
  next
    case False
    show ?thesis
    proof (cases "Number_of r = NaN")
      case True
      then show ?thesis by simp
    next
      case nf: False
      have N: "Number_of r = round_double B"
        using False nf unfolding Number_of_def Let_def B_def by (auto split: if_splits)
      show ?thesis
        unfolding B_def [symmetric] N using b nn by simp
    qed
  qed
qed

text \<open>\<open>toNum\<close> is \<open>null\<close> exactly when what is left of the text has no digit or more
  than one dot, or when its decimal value is \<open>2 ^ 1024 - 2 ^ 970\<close> or more.\<close>

lemma toNum_null_iff:
  "toNum (Text s) = None \<longleftrightarrow>
     (let r = filter (\<lambda>c. is_d c \<or> c = 46) (snd (toNum_suffix (toNum_clean s)));
          ip = takeWhile is_d r;
          fp = tl (dropWhile is_d r)
      in \<not> list_ex is_d r \<or> 2 \<le> length (filter (\<lambda>c. c = 46) r) \<or>
         2 ^ 1024 - 2 ^ 970
           \<le> (of_nat (digits_value ip) + of_nat (digits_value fp) / 10 ^ length fp :: rat))"
proof -
  define r where "r = filter (\<lambda>c. is_d c \<or> c = 46) (snd (toNum_suffix (toNum_clean s)))"
  have r: "list_all (\<lambda>c. is_d c \<or> c = 46) r" by (simp add: r_def list_all_iff)
  have ne: "list_ex is_d r \<Longrightarrow> r \<noteq> []" by auto
  note nan = Number_of_NaN_iff [OF r]
  note inf = Number_of_PosInf_iff [of r]
  show ?thesis
    unfolding toNum_None_iff Let_def r_def [symmetric]
    using nan inf ne by blast
qed

text \<open>\<open>n * 1\<close> is \<open>n\<close> for the number that \<open>Number\<close> gives.\<close>

lemma Number_of_times_one: "Number_of r = Fin n \<Longrightarrow> times_num (Fin n) 1 = Fin n"
proof -
  assume n: "Number_of r = Fin n"
  with Number_of_round [of r] obtain q where "0 \<le> q" "round_double q = Fin n" by auto
  then have "round_double n = Fin n" by (rule round_double_idem)
  then show ?thesis by simp
qed

lemma toNum_clean_snoc:
  "x = 107 \<or> x = 109 \<or> x = 98 \<Longrightarrow> toNum_clean (s @ [x]) = toNum_clean s @ [x]"
  unfolding toNum_clean_closed by (simp add: clean_unit_keeps)

lemma toNum_clean_Nil: "toNum_clean [] = []"
  by (simp add: toNum_clean_closed)

lemma toNum_without_suffix:
  assumes "\<not> endsWith (toNum_clean s) 107" "\<not> endsWith (toNum_clean s) 109"
    "\<not> endsWith (toNum_clean s) 98"
  shows "toNum (Text s) =
     (let r = filter (\<lambda>c. is_d c \<or> c = 46) (toNum_clean s) in
      if r = [] then None
      else (case Number_of r of Fin n \<Rightarrow> Some (Fin n) | _ \<Rightarrow> None))"
proof -
  let ?r = "filter (\<lambda>c. is_d c \<or> c = 46) (toNum_clean s)"
  have sf: "toNum_suffix (toNum_clean s) = (1, toNum_clean s)"
    using assms by (simp add: toNum_suffix_def)
  show ?thesis
  proof (cases "s = []")
    case True
    then show ?thesis by (simp add: toNum_def toNum_clean_Nil)
  next
    case False
    have one: "\<And>n. Number_of ?r = Fin n \<Longrightarrow> times_num (Fin n) 1 = Fin n"
      by (rule Number_of_times_one)
    show ?thesis
      using False one
      by (auto simp: toNum_def sf Let_def simp del: times_num.simps split: jsnum.splits)
  qed
qed

lemma toNum_with_suffix:
  assumes x: "x = 107 \<or> x = 109 \<or> x = 98"
    and sf: "toNum_suffix (toNum_clean s @ [x]) = (M, toNum_clean s)"
  shows "toNum (Text (s @ [x])) =
     (let r = filter (\<lambda>c. is_d c \<or> c = 46) (toNum_clean s) in
      if r = [] then None
      else (case Number_of r of Fin n \<Rightarrow> Some (times_num (Fin n) M) | _ \<Rightarrow> None))"
  by (simp add: toNum_def toNum_clean_snoc [OF x] sf Let_def del: times_num.simps)

text \<open>A suffix multiplies the number that the text without it denotes (a product of
  doubles).\<close>

lemma toNum_suffix_multiplies:
  assumes ns: "\<not> endsWith (toNum_clean s) 107" "\<not> endsWith (toNum_clean s) 109"
    "\<not> endsWith (toNum_clean s) 98"
    and x: "x = 107 \<or> x = 109 \<or> x = 98"
    and sf: "toNum_suffix (toNum_clean s @ [x]) = (M, toNum_clean s)"
  shows "toNum (Text (s @ [x])) = map_option (\<lambda>n. times_num n M) (toNum (Text s))"
  unfolding toNum_with_suffix [OF x sf] toNum_without_suffix [OF ns]
  by (simp add: Let_def del: times_num.simps split: jsnum.splits)

subsection \<open>Texts without a digit\<close>

lemma no_digit_clean:
  assumes "\<not> (\<exists>c \<in> set s. is_d c \<or> is_arabic_digit c)"
  shows "\<not> (\<exists>c \<in> set (toNum_clean s). is_d c)"
proof -
  have "\<And>c. is_d (arabic_to_western (lower_unit c)) \<Longrightarrow> is_d c \<or> is_arabic_digit c"
    by (auto simp: arabic_to_western_def lower_unit_def is_d_def is_arabic_digit_def
        split: if_splits)
  with assms show ?thesis unfolding toNum_clean_closed by auto
qed

lemma toNum_no_digit:
  assumes "\<not> (\<exists>c \<in> set s. is_d c \<or> is_arabic_digit c)"
  shows "toNum (Text s) = None"
proof -
  obtain m r where sf: "toNum_suffix (toNum_clean s) = (m, r)" by fastforce
  have "set r \<subseteq> set (toNum_clean s)"
    using sf by (auto simp: toNum_suffix_def split: if_splits dest: in_set_butlastD)
  with no_digit_clean [OF assms] have "\<not> (\<exists>c \<in> set r. is_d c)" by auto
  then have "\<not> list_ex is_d (filter (\<lambda>c. is_d c \<or> c = 46) r)"
    by (auto simp: list_ex_iff)
  then show ?thesis unfolding toNum_None_iff by (simp add: sf Let_def)
qed

subsection \<open>Values\<close>

lemma round_double_3_2: "round_double (3 / 2) = Fin (3 / 2)"
proof -
  have p: "log2_floor (3 / 2) = 0" by code_simp
  show ?thesis
    unfolding round_double_def p by (simp add: Let_def power_int_minus floor_rat_numeral)
qed

lemma round_double_201_100:
  "round_double (201 / 100) = Fin (1131529406376837 / 562949953421312)"
proof -
  have p: "log2_floor (201 / 100) = 1" by code_simp
  show ?thesis
    unfolding round_double_def p by (simp add: Let_def power_int_minus floor_rat_numeral)
qed

lemma round_double_2010:
  "round_double (141441175797104625 / 70368744177664) = Fin (8840073487319039 / 4398046511104)"
proof -
  have p: "log2_floor (141441175797104625 / 70368744177664) = 10" by code_simp
  show ?thesis
    unfolding round_double_def p by (simp add: Let_def power_int_minus floor_rat_numeral)
qed

lemmas toNum_eval =
  toNum_def toNum_clean_def toNum_suffix_def endsWith_def lit_def trim_def
  toLowerCase_def lower_unit_def js_ws_def arabic_to_western_def is_arabic_digit_def is_d_def
  Number_of_def digits_value_def Let_def

lemma toNum_examples:
  "toNum (Text (lit ''1.5m'')) = Some (Fin 1500000)"
  "toNum (Text (lit ''2,000'')) = Some (Fin 2000)"
  "toNum (Text (lit ''abc'')) = None"
  "toNum (Text (lit ''12abc34'')) = Some (Fin 1234)"
  "toNum (Text (lit ''1.2.3'')) = None"
  using round_double_nat [of 1500000] round_double_nat [of 2000] round_double_nat [of 1234]
  by (simp_all add: toNum_eval round_double_3_2)

text \<open>The products are products of doubles: \<open>2.01\<close> is not a double, and the double
  nearest to it, times \<open>1000\<close>, rounds to \<open>2009.9999999999998\<close>.\<close>

lemma toNum_rounds:
  "toNum (Text (lit ''2.01'')) = Some (Fin (1131529406376837 / 562949953421312))"
  "toNum (Text (lit ''2.01k'')) = Some (Fin (8840073487319039 / 4398046511104))"
  using round_double_idem [OF _ round_double_201_100]
  by (simp_all add: toNum_eval round_double_201_100 round_double_2010)

text \<open>The Kelvin sign is a suffix \<open>k\<close>, and so are the capitals \<open>K\<close>, \<open>M\<close> and \<open>B\<close>.\<close>

lemma toNum_capitals:
  "toNum (Text [53, 8490]) = Some (Fin 5000)"
  "toNum (Text (lit ''5K'')) = Some (Fin 5000)"
  "toNum (Text (lit ''5M'')) = Some (Fin 5000000)"
  "toNum (Text (lit ''5B'')) = Some (Fin 5000000000)"
  using round_double_nat [of 5] round_double_nat [of 5000] round_double_nat [of 5000000]
    round_double_nat [of 5000000000]
  by (simp_all add: toNum_eval)

text \<open>
  C4 (as the claim states it, refuted). The text \<open>12abc34\<close> is not a number with
  separators and a suffix, yet \<open>toNum\<close> does not give \<open>null\<close> for it: the letters are
  deleted and the digits that are left are read as \<open>1234\<close>.
\<close>

theorem toNum_unparseable_counterexample:
  "\<not> spec_parseable (lit ''12abc34'') \<and> toNum (Text (lit ''12abc34'')) = Some (Fin 1234)"
proof -
  have "\<not> spec_parseable (lit ''12abc34'')"
    by (simp add: spec_parseable_def endsWith_def lit_def trim_def toLowerCase_def
        lower_unit_def js_ws_def is_arabic_digit_def is_d_def Let_def)
  with toNum_examples(4) show ?thesis by simp
qed

text \<open>
  C4 (amended). \<open>toNum\<close> accepts Eastern Arabic-Indic digits (a text with them gives what
  the text with Western digits gives), comma and Arabic-comma separators (they do not
  change the result) and the suffixes \<open>k\<close>, \<open>m\<close> and \<open>b\<close>: a suffix added to a text
  without one multiplies its number by \<open>1e3\<close>, \<open>1e6\<close> or \<open>1e9\<close>, as a product of doubles;
  for a string of digits the result is the exact decimal value, and the exact product, as
  long as this is below \<open>2 ^ 53\<close>. Characters that belong to no number are not rejected but
  deleted: \<open>toNum\<close> gives \<open>null\<close> exactly when the text, after the clean-up, without its
  suffix and without everything that is neither a digit nor a dot, has no digit or has more
  than one dot, or when the decimal value of what is left is \<open>2 ^ 1024 - 2 ^ 970\<close> (about
  \<open>1.8e308\<close>) or more, which is \<open>Infinity\<close> as a double. In
  particular \<open>toNum("1.5m") = 1500000\<close>, \<open>toNum("2,000") = 2000\<close>, \<open>toNum("abc") = null\<close>,
  \<open>toNum("1.2.3") = null\<close> and \<open>toNum("12abc34") = 1234\<close>; the empty string, \<open>null\<close> and
  \<open>undefined\<close> give \<open>null\<close>, and so does every text without a digit.
\<close>

theorem toNum_accepts:
  "toNum (Text (lit ''1.5m'')) = Some (Fin 1500000) \<and>
   toNum (Text (lit ''2,000'')) = Some (Fin 2000) \<and>
   toNum (Text (lit ''abc'')) = None \<and>
   toNum (Text (lit ''12abc34'')) = Some (Fin 1234) \<and>
   toNum (Text (lit ''1.2.3'')) = None \<and>
   toNum (Text []) = None \<and> toNum Null = None \<and> toNum Undefined = None \<and>
   toNum (Text (map arabic_to_western s)) = toNum (Text s) \<and>
   toNum (Text (filter (\<lambda>c. c \<noteq> 44 \<and> c \<noteq> 1548) s)) = toNum (Text s) \<and>
   (\<not> endsWith (toNum_clean s) 107 \<and> \<not> endsWith (toNum_clean s) 109 \<and>
    \<not> endsWith (toNum_clean s) 98 \<longrightarrow>
      toNum (Text (s @ lit ''k'')) = map_option (\<lambda>n. times_num n 1000) (toNum (Text s)) \<and>
      toNum (Text (s @ lit ''m'')) = map_option (\<lambda>n. times_num n 1000000) (toNum (Text s)) \<and>
      toNum (Text (s @ lit ''b'')) = map_option (\<lambda>n. times_num n 1000000000) (toNum (Text s))) \<and>
   (d \<noteq> [] \<and> list_all is_d d \<longrightarrow>
      (digits_value d < 2 ^ 53 \<longrightarrow>
         toNum (Text d) = Some (Fin (of_nat (digits_value d)))) \<and>
      (digits_value d * 1000 < 2 ^ 53 \<longrightarrow>
         toNum (Text (d @ lit ''k'')) = Some (Fin (of_nat (digits_value d) * 1000))) \<and>
      (digits_value d * 1000000 < 2 ^ 53 \<longrightarrow>
         toNum (Text (d @ lit ''m'')) = Some (Fin (of_nat (digits_value d) * 1000000))) \<and>
      (digits_value d * 1000000000 < 2 ^ 53 \<longrightarrow>
         toNum (Text (d @ lit ''b'')) = Some (Fin (of_nat (digits_value d) * 1000000000)))) \<and>
   (toNum (Text s) = None \<longleftrightarrow>
      (let r = filter (\<lambda>c. is_d c \<or> c = 46) (snd (toNum_suffix (toNum_clean s)));
           ip = takeWhile is_d r;
           fp = tl (dropWhile is_d r)
       in \<not> list_ex is_d r \<or> 2 \<le> length (filter (\<lambda>c. c = 46) r) \<or>
          2 ^ 1024 - 2 ^ 970
            \<le> (of_nat (digits_value ip) + of_nat (digits_value fp) / 10 ^ length fp :: rat))) \<and>
   (\<not> (\<exists>c \<in> set s. is_d c \<or> is_arabic_digit c) \<longrightarrow> toNum (Text s) = None)"
proof -
  have nulls: "toNum (Text []) = None \<and> toNum Null = None \<and> toNum Undefined = None"
    by (simp add: toNum_def)
  have general:
    "toNum (Text (s @ lit ''k'')) = map_option (\<lambda>n. times_num n 1000) (toNum (Text s)) \<and>
     toNum (Text (s @ lit ''m'')) = map_option (\<lambda>n. times_num n 1000000) (toNum (Text s)) \<and>
     toNum (Text (s @ lit ''b'')) = map_option (\<lambda>n. times_num n 1000000000) (toNum (Text s))"
    if ns: "\<not> endsWith (toNum_clean s) 107 \<and> \<not> endsWith (toNum_clean s) 109 \<and>
            \<not> endsWith (toNum_clean s) 98"
  proof -
    from ns have n: "\<not> endsWith (toNum_clean s) 107" "\<not> endsWith (toNum_clean s) 109"
      "\<not> endsWith (toNum_clean s) 98" by simp_all
    have k: "toNum (Text (s @ [107])) = map_option (\<lambda>n. times_num n 1000) (toNum (Text s))"
      by (rule toNum_suffix_multiplies [OF n _ toNum_suffix_k]) simp
    have m: "toNum (Text (s @ [109])) = map_option (\<lambda>n. times_num n 1000000) (toNum (Text s))"
      by (rule toNum_suffix_multiplies [OF n _ toNum_suffix_m]) simp
    have b: "toNum (Text (s @ [98])) = map_option (\<lambda>n. times_num n 1000000000) (toNum (Text s))"
      by (rule toNum_suffix_multiplies [OF n _ toNum_suffix_b]) simp
    have l: "lit ''k'' = [107]" "lit ''m'' = [109]" "lit ''b'' = [98]" by (simp_all add: lit_def)
    from k m b show ?thesis unfolding l by blast
  qed
  have exact:
    "(digits_value d < 2 ^ 53 \<longrightarrow>
         toNum (Text d) = Some (Fin (of_nat (digits_value d)))) \<and>
      (digits_value d * 1000 < 2 ^ 53 \<longrightarrow>
         toNum (Text (d @ lit ''k'')) = Some (Fin (of_nat (digits_value d) * 1000))) \<and>
      (digits_value d * 1000000 < 2 ^ 53 \<longrightarrow>
         toNum (Text (d @ lit ''m'')) = Some (Fin (of_nat (digits_value d) * 1000000))) \<and>
      (digits_value d * 1000000000 < 2 ^ 53 \<longrightarrow>
         toNum (Text (d @ lit ''b'')) = Some (Fin (of_nat (digits_value d) * 1000000000)))"
    if d: "d \<noteq> [] \<and> list_all is_d d"
  proof -
    from d have d': "d \<noteq> []" "list_all is_d d" by simp_all
    have l: "lit ''k'' = [107]" "lit ''m'' = [109]" "lit ''b'' = [98]" by (simp_all add: lit_def)
    have p: "toNum (Text d) = Some (Fin (of_nat (digits_value d)))"
      if "digits_value d < 2 ^ 53"
      using d' that by (rule toNum_digits_plain)
    have k: "toNum (Text (d @ [107])) = Some (Fin (of_nat (digits_value d) * 1000))"
      if "digits_value d * 1000 < 2 ^ 53"
      using toNum_digits_suffix [OF d' _ _ _ that, of 107] toNum_suffix_k [of d]
      by simp
    have m: "toNum (Text (d @ [109])) = Some (Fin (of_nat (digits_value d) * 1000000))"
      if "digits_value d * 1000000 < 2 ^ 53"
      using toNum_digits_suffix [OF d' _ _ _ that, of 109] toNum_suffix_m [of d]
      by simp
    have b: "toNum (Text (d @ [98])) = Some (Fin (of_nat (digits_value d) * 1000000000))"
      if "digits_value d * 1000000000 < 2 ^ 53"
      using toNum_digits_suffix [OF d' _ _ _ that, of 98] toNum_suffix_b [of d]
      by simp
    from p k m b show ?thesis unfolding l by blast
  qed
  from toNum_examples nulls toNum_arabic [of s] toNum_separators [of s] general exact
    toNum_null_iff [of s] toNum_no_digit [of s]
  show ?thesis by blast
qed

theorem toNum_accepts_witness:
  "toNum (Text (lit ''25'')) = Some (Fin 25) \<and>
   toNum (Text (lit ''25k'')) = Some (Fin 25000) \<and>
   toNum (Text (lit ''25m'')) = Some (Fin 25000000) \<and>
   toNum (Text (lit ''25b'')) = Some (Fin 25000000000) \<and>
   toNum (Text (lit ''2.01k'')) = Some (Fin (8840073487319039 / 4398046511104)) \<and>
   toNum (Text (lit ''n/a'')) = None \<and>
   toNum (Text [1634, 1637]) = toNum (Text (lit ''25'')) \<and>
   toNum (Text (lit ''1..2'')) = None \<and>
   toNum (Text (lit ''7x'')) \<noteq> None"
proof -
  have d: "lit ''25'' \<noteq> [] \<and> list_all is_d (lit ''25'')"
    by (simp add: lit_def is_d_def)
  have v: "digits_value (lit ''25'') = 25"
    by (simp add: lit_def digits_value_def)
  have c: "toNum_clean (lit ''2.01'') = lit ''2.01''"
    by (simp add: toNum_clean_def trim_def toLowerCase_def lower_unit_def js_ws_def
        arabic_to_western_def is_arabic_digit_def lit_def)
  have ns: "\<not> endsWith (toNum_clean (lit ''2.01'')) 107 \<and>
            \<not> endsWith (toNum_clean (lit ''2.01'')) 109 \<and>
            \<not> endsWith (toNum_clean (lit ''2.01'')) 98"
    unfolding c by (simp add: endsWith_def lit_def)
  have s: "\<not> (\<exists>c \<in> set (lit ''n/a''). is_d c \<or> is_arabic_digit c)"
    by (simp add: lit_def is_d_def is_arabic_digit_def)
  have a: "map arabic_to_western [1634, 1637] = lit ''25''"
    by (simp add: arabic_to_western_def is_arabic_digit_def lit_def)
  have l: "lit ''2.01'' @ lit ''k'' = lit ''2.01k''" "lit ''25'' @ lit ''k'' = lit ''25k''"
    "lit ''25'' @ lit ''m'' = lit ''25m''" "lit ''25'' @ lit ''b'' = lit ''25b''"
    by (simp_all add: lit_def)
  note T = toNum_accepts [of "lit ''2.01''" "lit ''25''"]
  from T ns have "toNum (Text (lit ''2.01'' @ lit ''k''))
      = map_option (\<lambda>n. times_num n 1000) (toNum (Text (lit ''2.01'')))"
    by blast
  then have w1: "toNum (Text (lit ''2.01k'')) = Some (Fin (8840073487319039 / 4398046511104))"
    unfolding l toNum_rounds(1) by (simp add: round_double_2010)
  from T d have
    "(digits_value (lit ''25'') < 2 ^ 53 \<longrightarrow>
         toNum (Text (lit ''25'')) = Some (Fin (of_nat (digits_value (lit ''25''))))) \<and>
     (digits_value (lit ''25'') * 1000 < 2 ^ 53 \<longrightarrow>
         toNum (Text (lit ''25'' @ lit ''k''))
           = Some (Fin (of_nat (digits_value (lit ''25'')) * 1000))) \<and>
     (digits_value (lit ''25'') * 1000000 < 2 ^ 53 \<longrightarrow>
         toNum (Text (lit ''25'' @ lit ''m''))
           = Some (Fin (of_nat (digits_value (lit ''25'')) * 1000000))) \<and>
     (digits_value (lit ''25'') * 1000000000 < 2 ^ 53 \<longrightarrow>
         toNum (Text (lit ''25'' @ lit ''b''))
           = Some (Fin (of_nat (digits_value (lit ''25'')) * 1000000000)))"
    by blast
  then have w2: "toNum (Text (lit ''25'')) = Some (Fin 25) \<and>
      toNum (Text (lit ''25k'')) = Some (Fin 25000) \<and>
      toNum (Text (lit ''25m'')) = Some (Fin 25000000) \<and>
      toNum (Text (lit ''25b'')) = Some (Fin 25000000000)"
    unfolding v l by simp
  from toNum_accepts [of "lit ''n/a''" "[]"] s
  have w3: "toNum (Text (lit ''n/a'')) = None" by blast
  from toNum_accepts [of "[1634, 1637]" "[]"]
  have "toNum (Text (map arabic_to_western [1634, 1637])) = toNum (Text [1634, 1637])"
    by blast
  then have w4: "toNum (Text [1634, 1637]) = toNum (Text (lit ''25''))"
    unfolding a by simp
  let ?null = "\<lambda>s.
      (let r = filter (\<lambda>c. is_d c \<or> c = 46) (snd (toNum_suffix (toNum_clean s)));
           ip = takeWhile is_d r;
           fp = tl (dropWhile is_d r)
       in \<not> list_ex is_d r \<or> 2 \<le> length (filter (\<lambda>c. c = 46) r) \<or>
          2 ^ 1024 - 2 ^ 970
            \<le> (of_nat (digits_value ip) + of_nat (digits_value fp) / 10 ^ length fp :: rat))"
  have r: "filter (\<lambda>c. is_d c \<or> c = 46) (snd (toNum_suffix (toNum_clean (lit ''1..2''))))
             = lit ''1..2''"
    "filter (\<lambda>c. is_d c \<or> c = 46) (snd (toNum_suffix (toNum_clean (lit ''7x''))))
             = lit ''7''"
    by (simp_all add: toNum_suffix_def endsWith_def toNum_clean_def trim_def toLowerCase_def
        lower_unit_def js_ws_def arabic_to_western_def is_arabic_digit_def is_d_def lit_def)
  from toNum_accepts [of "lit ''1..2''" "[]"]
  have "toNum (Text (lit ''1..2'')) = None \<longleftrightarrow> ?null (lit ''1..2'')" by blast
  then have w5: "toNum (Text (lit ''1..2'')) = None"
    unfolding r Let_def by (simp add: lit_def is_d_def)
  from toNum_accepts [of "lit ''7x''" "[]"]
  have "toNum (Text (lit ''7x'')) = None \<longleftrightarrow> ?null (lit ''7x'')" by blast
  then have w6: "toNum (Text (lit ''7x'')) \<noteq> None"
    unfolding r Let_def by (simp add: lit_def is_d_def digits_value_def)
  from w1 w2 w3 w4 w5 w6 show ?thesis by simp
qed

section \<open>The quick filter bar and the drawer\<close>

lemma normalizeOptions_loop_values:
  "ce_value ` set (normalizeOptions_loop arr out seen) =
     ce_value ` set out \<union> {v \<in> item_value ` set arr. v \<noteq> [] \<and> v \<notin> seen}"
proof (induction arr arbitrary: out seen)
  case Nil
  show ?case by simp
next
  case (Cons it arr)
  show ?case
  proof (cases "item_value it = [] \<or> item_value it \<in> seen")
    case True
    then show ?thesis using Cons [of out seen] by auto
  next
    case False
    then show ?thesis
      using Cons [of "out @ [\<lparr>ce_label = item_label it, ce_value = item_value it,
                       ce_color = item_color it\<rparr>]" "insert (item_value it) seen"]
      by auto
  qed
qed

lemma normalizeOptions_values:
  "ce_value ` set (normalizeOptions arr) = {v \<in> item_value ` set arr. v \<noteq> []}"
  by (simp add: normalizeOptions_def normalizeOptions_loop_values)

lemma find_None_iff_values: "find (\<lambda>p. ce_value p = v) xs \<noteq> None \<longleftrightarrow> v \<in> ce_value ` set xs"
  by (auto simp: find_None_iff)

lemma allowed_iff:
  "pv \<noteq> [] \<Longrightarrow>
   find (\<lambda>p. ce_value p = pv) (normalizeOptions items) \<noteq> None \<longleftrightarrow> pv \<in> item_value ` set items"
  using find_None_iff_values [of pv "normalizeOptions items"] normalizeOptions_values [of items]
  by auto

lemma trim_Nil: "trim [] = []"
  by (simp add: trim_def)

lemma project_part_closed:
  "project_part props items u =
     (let pv = trim (text_or_empty (ui_project u)) in
      if pv \<noteq> [] \<and> length pv \<le> 300 \<and> pv \<in> item_value ` set items
        then [\<lparr>fieldname = Some (projectField props), operator = Some (lit ''=''),
                val = JStr pv\<rparr>]
      else [])"
proof (cases "trim (text_or_empty (ui_project u)) = []")
  case True
  then show ?thesis by (simp add: project_part_def Let_def)
next
  case False
  then have "text_or_empty (ui_project u) \<noteq> []" using trim_Nil by auto
  then have t: "truthy_text (ui_project u)" by (cases "ui_project u") auto
  show ?thesis
    using False t allowed_iff [OF False, of items]
    by (auto simp: project_part_def Let_def MAX_LEN_def op_filter_def)
qed

text \<open>
  C6 (as the claim states it, refuted). A non-empty project that is not in the project
  list of the bar maps to no tuple at all: the bar checks the project against its
  normalized list and rejects an unknown one.
\<close>

theorem buildFiltersPayload_project_counterexample:
  "truthy_text (ui_project (initial_ui\<lparr>ui_project := Text (lit ''P9'')\<rparr>)) \<and>
   buildFiltersPayload (page_bar_props []) [] None (initial_ui\<lparr>ui_project := Text (lit ''P9'')\<rparr>)
     = []"
  by (simp add: buildFiltersPayload_def owner_part_def status_part_def project_part_def
      from_part_def to_part_def owner_of_def initial_ui_def normalizeOptions_def lit_def Let_def)

text \<open>
  C6 (amended). In the quick filter bar translation, whatever the owner selection is, the
  payload is, in this order: at most one tuple for the owner; for a non-empty status,
  exactly one \<open>=\<close> tuple; for a project whose trimmed value is non-empty, at most 300 code
  units long and a value of the project list of the bar, exactly one \<open>=\<close> tuple with the
  trimmed value, and no tuple for any other project; for a non-empty lower bound of the
  date range, exactly one \<open>>=\<close> tuple; for a non-empty upper bound, exactly one \<open><=\<close>
  tuple on the same field, whose value begins with the bound. The owner \<open>me\<close>, with a
  session user, gives one \<open>=\<close> tuple on the owner field with the id of the session user
  (and no tuple without a session user); the owner \<open>unassigned\<close> gives the tuple
  \<open>{_assign, is, not set}\<close>; the owner \<open>all\<close> gives no tuple.
\<close>

theorem buildFiltersPayload_parts:
  "\<exists>own upper.
     buildFiltersPayload props items me u =
       own @
       (if truthy_text (ui_status u)
          then [\<lparr>fieldname = Some (statusField props), operator = Some (lit ''=''),
                  val = JStr (text_or_empty (ui_status u))\<rparr>]
        else []) @
       (if trim (text_or_empty (ui_project u)) \<noteq> []
           \<and> length (trim (text_or_empty (ui_project u))) \<le> 300
           \<and> trim (text_or_empty (ui_project u)) \<in> item_value ` set items
          then [\<lparr>fieldname = Some (projectField props), operator = Some (lit ''=''),
                  val = JStr (trim (text_or_empty (ui_project u)))\<rparr>]
        else []) @
       (if truthy_text (ui_last_contacted_from u)
          then [\<lparr>fieldname = Some (last_contact_name props), operator = Some (lit ''>=''),
                  val = JStr (text_or_empty (ui_last_contacted_from u))\<rparr>]
        else []) @
       upper \<and>
     length own \<le> 1 \<and>
     (owner_of u = lit ''me'' \<and> truthy_str me \<longrightarrow>
        own = [\<lparr>fieldname = Some (ownerField props), operator = Some (lit ''=''),
                 val = JStr (or_empty me)\<rparr>]) \<and>
     (owner_of u = lit ''me'' \<and> \<not> truthy_str me \<longrightarrow> own = []) \<and>
     (owner_of u = lit ''unassigned'' \<longrightarrow>
        own = [\<lparr>fieldname = Some (lit ''_assign''), operator = Some (lit ''is''),
                 val = JStr (lit ''not set'')\<rparr>]) \<and>
     (owner_of u = lit ''all'' \<longrightarrow> own = []) \<and>
     (truthy_text (ui_last_contacted_to u) \<longrightarrow>
        (\<exists>v. upper = [\<lparr>fieldname = Some (last_contact_name props), operator = Some (lit ''<=''),
                         val = JStr v\<rparr>] \<and>
             take (length (text_or_empty (ui_last_contacted_to u))) v
               = text_or_empty (ui_last_contacted_to u))) \<and>
     (\<not> truthy_text (ui_last_contacted_to u) \<longrightarrow> upper = [])"
proof (intro exI conjI)
  show "buildFiltersPayload props items me u =
       owner_part props me u @
       (if truthy_text (ui_status u)
          then [\<lparr>fieldname = Some (statusField props), operator = Some (lit ''=''),
                  val = JStr (text_or_empty (ui_status u))\<rparr>]
        else []) @
       (if trim (text_or_empty (ui_project u)) \<noteq> []
           \<and> length (trim (text_or_empty (ui_project u))) \<le> 300
           \<and> trim (text_or_empty (ui_project u)) \<in> item_value ` set items
          then [\<lparr>fieldname = Some (projectField props), operator = Some (lit ''=''),
                  val = JStr (trim (text_or_empty (ui_project u)))\<rparr>]
        else []) @
       (if truthy_text (ui_last_contacted_from u)
          then [\<lparr>fieldname = Some (last_contact_name props), operator = Some (lit ''>=''),
                  val = JStr (text_or_empty (ui_last_contacted_from u))\<rparr>]
        else []) @
       to_part props u"
    unfolding buildFiltersPayload_def project_part_closed
    by (simp add: status_part_def from_part_def op_filter_def Let_def)
  show "length (owner_part props me u) \<le> 1"
    by (simp add: owner_part_def)
  show "owner_of u = lit ''me'' \<and> truthy_str me \<longrightarrow>
        owner_part props me u =
          [\<lparr>fieldname = Some (ownerField props), operator = Some (lit ''=''),
             val = JStr (or_empty me)\<rparr>]"
    by (simp add: owner_part_def op_filter_def)
  show "owner_of u = lit ''me'' \<and> \<not> truthy_str me \<longrightarrow> owner_part props me u = []"
    by (simp add: owner_part_def lit_def)
  show "owner_of u = lit ''unassigned'' \<longrightarrow>
        owner_part props me u =
          [\<lparr>fieldname = Some (lit ''_assign''), operator = Some (lit ''is''),
             val = JStr (lit ''not set'')\<rparr>]"
    by (simp add: owner_part_def op_filter_def lit_def)
  show "owner_of u = lit ''all'' \<longrightarrow> owner_part props me u = []"
    by (simp add: owner_part_def lit_def)
  show "truthy_text (ui_last_contacted_to u) \<longrightarrow>
        (\<exists>v. to_part props u =
                [\<lparr>fieldname = Some (last_contact_name props), operator = Some (lit ''<=''),
                   val = JStr v\<rparr>] \<and>
             take (length (text_or_empty (ui_last_contacted_to u))) v
               = text_or_empty (ui_last_contacted_to u))"
    by (simp add: to_part_def op_filter_def end_of_day_def)
  show "\<not> truthy_text (ui_last_contacted_to u) \<longrightarrow> to_part props u = []"
    by (simp add: to_part_def)
qed

theorem buildFiltersPayload_parts_witness:
  "take 4 (buildFiltersPayload (page_bar_props []) [ItemText (lit ''P1'')] (Some (lit ''a@b.c''))
     (initial_ui\<lparr>ui_owner := Text (lit ''me''), ui_status := Text (lit ''New''),
                  ui_project := Text (lit '' P1 ''),
                  ui_last_contacted_from := Text (lit ''2024-01-01''),
                  ui_last_contacted_to := Text (lit ''2024-01-10'')\<rparr>))
   = [\<lparr>fieldname = Some (lit ''lead_owner''), operator = Some (lit ''=''),
        val = JStr (lit ''a@b.c'')\<rparr>,
      \<lparr>fieldname = Some (lit ''status''), operator = Some (lit ''=''),
        val = JStr (lit ''New'')\<rparr>,
      \<lparr>fieldname = Some (lit ''real_estate_project''), operator = Some (lit ''=''),
        val = JStr (lit ''P1'')\<rparr>,
      \<lparr>fieldname = Some (lit ''last_contacted_on''), operator = Some (lit ''>=''),
        val = JStr (lit ''2024-01-01'')\<rparr>] \<and>
   map (\<lambda>f. (fieldname f, operator f))
     (drop 4 (buildFiltersPayload (page_bar_props []) [ItemText (lit ''P1'')]
        (Some (lit ''a@b.c''))
        (initial_ui\<lparr>ui_owner := Text (lit ''me''), ui_status := Text (lit ''New''),
                     ui_project := Text (lit '' P1 ''),
                     ui_last_contacted_from := Text (lit ''2024-01-01''),
                     ui_last_contacted_to := Text (lit ''2024-01-10'')\<rparr>)))
   = [(Some (lit ''last_contacted_on''), Some (lit ''<=''))] \<and>
   buildFiltersPayload (page_bar_props []) [] None
     (initial_ui\<lparr>ui_owner := Text (lit ''unassigned''), ui_project := Text (lit ''P9'')\<rparr>)
   = [\<lparr>fieldname = Some (lit ''_assign''), operator = Some (lit ''is''),
        val = JStr (lit ''not set'')\<rparr>]"
proof -
  let ?u = "initial_ui\<lparr>ui_owner := Text (lit ''me''), ui_status := Text (lit ''New''),
                  ui_project := Text (lit '' P1 ''),
                  ui_last_contacted_from := Text (lit ''2024-01-01''),
                  ui_last_contacted_to := Text (lit ''2024-01-10'')\<rparr>"
  let ?w = "initial_ui\<lparr>ui_owner := Text (lit ''unassigned''), ui_project := Text (lit ''P9'')\<rparr>"
  let ?props = "\<lparr>statusField = lit ''status'', projectField = lit ''real_estate_project'',
        ownerField = lit ''lead_owner'', lastContactField = lit ''last_contacted_on''\<rparr>"
  have p: "page_bar_props [] = ?props"
    by (simp add: page_bar_props_def PROJECT_FIELD_def LAST_CONTACT_FIELD_def
        getLeadFieldMeta_def)
  have n: "last_contact_name ?props = lit ''last_contacted_on''"
    by (simp add: last_contact_name_def lit_def)
  have o: "owner_of ?u = lit ''me''" "truthy_str (Some (lit ''a@b.c''))"
    "truthy_text (ui_last_contacted_to ?u)"
    by (simp_all add: owner_of_def lit_def)
  have o': "owner_of ?w = lit ''unassigned''" "\<not> truthy_text (ui_last_contacted_to ?w)"
    by (simp_all add: owner_of_def initial_ui_def lit_def)
  from buildFiltersPayload_parts [of ?props "[ItemText (lit ''P1'')]" "Some (lit ''a@b.c'')" ?u]
  obtain own upper v where
    e: "buildFiltersPayload ?props [ItemText (lit ''P1'')] (Some (lit ''a@b.c'')) ?u =
          own @
          [\<lparr>fieldname = Some (lit ''status''), operator = Some (lit ''=''),
             val = JStr (lit ''New'')\<rparr>,
           \<lparr>fieldname = Some (lit ''real_estate_project''), operator = Some (lit ''=''),
             val = JStr (lit ''P1'')\<rparr>,
           \<lparr>fieldname = Some (lit ''last_contacted_on''), operator = Some (lit ''>=''),
             val = JStr (lit ''2024-01-01'')\<rparr>] @ upper"
    and own: "own = [\<lparr>fieldname = Some (lit ''lead_owner''), operator = Some (lit ''=''),
                      val = JStr (lit ''a@b.c'')\<rparr>]"
    and upper: "upper = [\<lparr>fieldname = Some (lit ''last_contacted_on''),
                          operator = Some (lit ''<=''), val = JStr v\<rparr>]"
    using o unfolding n
    by (auto simp: initial_ui_def trim_def js_ws_def lit_def)
  from buildFiltersPayload_parts [of ?props "[]" None ?w]
  obtain own' upper' where
    e': "buildFiltersPayload ?props [] None ?w = own' @ upper'"
    and own': "own' = [\<lparr>fieldname = Some (lit ''_assign''), operator = Some (lit ''is''),
                        val = JStr (lit ''not set'')\<rparr>]"
    and upper': "upper' = []"
    using o' by (auto simp: initial_ui_def trim_def js_ws_def lit_def)
  show ?thesis
    unfolding p e e' own upper own' upper' by simp
qed

text \<open>
  C5 (the code at the failing input). The last-contact field of the document type is a
  plain \<open>Date\<close> field and the upper bound of the date range is \<open>2024-01-10\<close>. The drawer
  emits the bare date. The quick filter bar, which is given the name of the field but not
  its type, emits \<open>2024-01-10 23:59:59\<close>: it widens the bound for every field.
\<close>

theorem quick_bar_widens_date_field:
  "\<not> isDT (LAST_CONTACT_FIELD
            [\<lparr>df_fieldname = lit ''last_contacted_on'', df_fieldtype = Some (lit ''Date''),
               df_options = None\<rparr>]) \<and>
   panel_F [\<lparr>df_fieldname = lit ''last_contacted_on'', df_fieldtype = Some (lit ''Date''),
              df_options = None\<rparr>]
     (initial_ui\<lparr>ui_last_contacted_to := Text (lit ''2024-01-10'')\<rparr>)
     = [\<lparr>fieldname = Some (lit ''last_contacted_on''), operator = Some (lit ''<=''),
          val = JStr (lit ''2024-01-10'')\<rparr>] \<and>
   buildFiltersPayload
     (page_bar_props [\<lparr>df_fieldname = lit ''last_contacted_on'',
                        df_fieldtype = Some (lit ''Date''), df_options = None\<rparr>])
     [] None (initial_ui\<lparr>ui_last_contacted_to := Text (lit ''2024-01-10'')\<rparr>)
     = [\<lparr>fieldname = Some (lit ''last_contacted_on''), operator = Some (lit ''<=''),
          val = JStr (lit ''2024-01-10 23:59:59'')\<rparr>]"
proof -
  let ?meta = "[\<lparr>df_fieldname = lit ''last_contacted_on'', df_fieldtype = Some (lit ''Date''),
                 df_options = None\<rparr>]"
  let ?u = "initial_ui\<lparr>ui_last_contacted_to := Text (lit ''2024-01-10'')\<rparr>"
  have L: "LAST_CONTACT_FIELD ?meta =
      \<lparr>df_fieldname = lit ''last_contacted_on'', df_fieldtype = Some (lit ''Date''),
        df_options = None\<rparr>"
    by (simp add: LAST_CONTACT_FIELD_def)
  have D': "\<not> isDT \<lparr>df_fieldname = lit ''last_contacted_on'',
                      df_fieldtype = Some (lit ''Date''), df_options = None\<rparr>"
    by (simp add: isDT_def toLowerCase_def lit_def)
  then have D: "\<not> isDT (LAST_CONTACT_FIELD ?meta)"
    unfolding L .
  have P: "panel_F ?meta ?u =
      [\<lparr>fieldname = Some (lit ''last_contacted_on''), operator = Some (lit ''<=''),
         val = JStr (lit ''2024-01-10'')\<rparr>]"
    unfolding panel_F_def L using D'
    by (simp add: push_eq_def push_num_def toNum_def initial_ui_def op_filter_def lit_def)
  have N: "last_contact_name (page_bar_props ?meta) = lit ''last_contacted_on''"
    unfolding page_bar_props_def L by (simp add: last_contact_name_def)
  have B: "buildFiltersPayload (page_bar_props ?meta) [] None ?u =
      [\<lparr>fieldname = Some (lit ''last_contacted_on''), operator = Some (lit ''<=''),
         val = JStr (lit ''2024-01-10 23:59:59'')\<rparr>]"
    unfolding buildFiltersPayload_def from_part_def to_part_def N
    by (simp add: owner_part_def status_part_def project_part_def
        owner_of_def initial_ui_def end_of_day_def op_filter_def lit_def)
  from D P B show ?thesis by blast
qed

text \<open>
  The drawer, in general: the upper bound is widened exactly when the last-contact field
  is a datetime field.
\<close>

lemma panel_F_upper_bound:
  assumes "truthy_text (ui_last_contacted_to u)"
  shows "\<lparr>fieldname = Some (df_fieldname (LAST_CONTACT_FIELD meta)), operator = Some (lit ''<=''),
           val = JStr (if isDT (LAST_CONTACT_FIELD meta)
                         then text_or_empty (ui_last_contacted_to u) @ lit '' 23:59:59''
                       else text_or_empty (ui_last_contacted_to u))\<rparr>
         \<in> set (panel_F meta u)"
proof -
  from assms obtain t where "ui_last_contacted_to u = Text t"
    by (cases "ui_last_contacted_to u") auto
  with assms show ?thesis
    by (simp add: panel_F_def op_filter_def end_of_day_def)
qed

section \<open>Catalog merging\<close>

lemma keyedD: "keyed m \<Longrightarrow> (k, e) \<in> set m \<Longrightarrow> ce_value e = k \<and> k \<noteq> []"
  by (auto simp: keyed_def)

lemma map_set_absent: "\<not> map_has m k \<Longrightarrow> map_set m k v = m @ [(k, v)]"
  by (induction m) (auto simp: map_has_def)

lemma add_if_new_cases:
  "add_if_new m p = (if ce_value p \<noteq> [] \<and> \<not> map_has m (ce_value p)
                      then m @ [(ce_value p, p)] else m)"
  by (simp add: add_if_new_def map_set_absent)

lemma keyed_add: "keyed m \<Longrightarrow> keyed (add_if_new m p)"
  by (auto simp: add_if_new_cases keyed_def map_has_def)

lemma keyed_foldl: "keyed m \<Longrightarrow> keyed (foldl add_if_new m xs)"
  by (induction xs arbitrary: m) (simp_all add: keyed_add)

lemma keyed_Nil: "keyed []"
  by (simp add: keyed_def)

lemma foldl_keys:
  "fst ` set (foldl add_if_new m xs) = fst ` set m \<union> {v \<in> ce_value ` set xs. v \<noteq> []}"
proof (induction xs arbitrary: m)
  case Nil
  show ?case by simp
next
  case (Cons p xs)
  show ?case
    unfolding foldl_Cons Cons [of "add_if_new m p"]
    by (auto simp: add_if_new_cases map_has_def)
qed

lemma foldl_prefix:
  "\<exists>ys. foldl add_if_new m xs = m @ ys \<and> snd ` set ys \<subseteq> set xs \<and>
        (\<forall>(k, e) \<in> set ys. \<not> map_has m k)"
proof (induction xs arbitrary: m)
  case Nil
  show ?case by simp
next
  case (Cons p xs)
  from Cons [of "add_if_new m p"] obtain ys where
    ys: "foldl add_if_new (add_if_new m p) xs = add_if_new m p @ ys"
      "snd ` set ys \<subseteq> set xs" "\<forall>(k, e) \<in> set ys. \<not> map_has (add_if_new m p) k"
    by blast
  show ?case
  proof (cases "ce_value p \<noteq> [] \<and> \<not> map_has m (ce_value p)")
    case True
    then have a: "add_if_new m p = m @ [(ce_value p, p)]" by (simp add: add_if_new_cases)
    have "foldl add_if_new m (p # xs) = m @ ((ce_value p, p) # ys)"
      using ys(1) a by simp
    moreover have "snd ` set ((ce_value p, p) # ys) \<subseteq> set (p # xs)"
      using ys(2) by auto
    moreover have "\<forall>(k, e) \<in> set ((ce_value p, p) # ys). \<not> map_has m k"
      using ys(3) True unfolding a by (auto simp: map_has_def)
    ultimately show ?thesis by blast
  next
    case False
    then have a: "add_if_new m p = m" by (simp add: add_if_new_cases)
    have "foldl add_if_new m (p # xs) = m @ ys" using ys(1) a by simp
    moreover have "snd ` set ys \<subseteq> set (p # xs)" using ys(2) by auto
    moreover have "\<forall>(k, e) \<in> set ys. \<not> map_has m k" using ys(3) unfolding a .
    ultimately show ?thesis by blast
  qed
qed

lemma foldl_first:
  "(k, e) \<in> set (foldl add_if_new m xs) \<Longrightarrow> k \<noteq> [] \<Longrightarrow>
   (k, e) \<in> set m \<or> (\<not> map_has m k \<and> find (\<lambda>p. ce_value p = k) xs = Some e)"
proof (induction xs arbitrary: m)
  case Nil
  then show ?case by simp
next
  case (Cons p xs)
  note k = \<open>k \<noteq> []\<close>
  from Cons.prems have "(k, e) \<in> set (foldl add_if_new (add_if_new m p) xs)" by simp
  from Cons.IH [OF this k] consider
    (old) "(k, e) \<in> set (add_if_new m p)"
    | (new) "\<not> map_has (add_if_new m p) k" "find (\<lambda>p. ce_value p = k) xs = Some e"
    by blast
  then show ?case
  proof cases
    case old
    then show ?thesis
      by (auto simp: add_if_new_cases map_has_def split: if_splits)
  next
    case new
    with k show ?thesis
      by (auto simp: add_if_new_cases map_has_def image_iff split: if_splits)
  qed
qed

lemma foldl_noop:
  "(\<forall>p \<in> set xs. ce_value p = [] \<or> map_has m (ce_value p)) \<Longrightarrow> foldl add_if_new m xs = m"
  by (induction xs) (auto simp: add_if_new_cases)

lemma foldl_rebuild:
  "keyed (m @ ys) \<Longrightarrow> foldl add_if_new m (map snd ys) = m @ ys"
proof (induction ys arbitrary: m)
  case Nil
  show ?case by simp
next
  case (Cons y ys)
  obtain k e where y: "y = (k, e)" by (cases y)
  from Cons.prems have ke: "ce_value e = k" "k \<noteq> []" "\<not> map_has m k"
    by (auto simp: keyed_def y map_has_def)
  then have a: "add_if_new m e = m @ [(k, e)]" by (simp add: add_if_new_cases)
  from Cons.prems have "keyed ((m @ [(k, e)]) @ ys)" by (simp add: y)
  from Cons.IH [OF this] show ?case by (simp add: y a)
qed

lemma keyed_values:
  "keyed m \<Longrightarrow> map ce_value (map_values m) = map fst m"
  by (induction m) (auto simp: keyed_def map_values_def)

lemma projectList_map_keyed:
  "keyed (foldl add_if_new (foldl add_if_new [] full) seen)"
  by (intro keyed_foldl keyed_Nil)

lemma projectList_distinct: "distinct (map ce_value (projectList full seen))"
  using projectList_map_keyed [of full seen]
  by (simp add: projectList_def keyed_values) (simp add: keyed_def)

lemma in_values: "e \<in> set (map_values m) \<Longrightarrow> keyed m \<Longrightarrow> (ce_value e, e) \<in> set m"
  by (auto simp: map_values_def keyed_def)

lemma find_append:
  "find P (xs @ ys) = (case find P xs of Some x \<Rightarrow> Some x | None \<Rightarrow> find P ys)"
  by (induction xs) auto

lemma projectList_first:
  assumes "e \<in> set (projectList full seen)"
  shows "ce_value e \<noteq> [] \<and> find (\<lambda>p. ce_value p = ce_value e) (full @ seen) = Some e"
proof -
  let ?M1 = "foldl add_if_new [] full"
  let ?M = "foldl add_if_new ?M1 seen"
  have kM: "keyed ?M" by (rule projectList_map_keyed)
  from assms have in_M: "(ce_value e, e) \<in> set ?M"
    unfolding projectList_def by (rule in_values [OF _ kM])
  with kM have ne: "ce_value e \<noteq> []" by (auto simp: keyed_def)
  from foldl_first [OF in_M ne] consider
    (a) "(ce_value e, e) \<in> set ?M1"
    | (b) "\<not> map_has ?M1 (ce_value e)" "find (\<lambda>p. ce_value p = ce_value e) seen = Some e"
    by blast
  then have "find (\<lambda>p. ce_value p = ce_value e) (full @ seen) = Some e"
  proof cases
    case a
    from foldl_first [OF a ne] have "find (\<lambda>p. ce_value p = ce_value e) full = Some e"
      by simp
    then show ?thesis by (simp add: find_append)
  next
    case b
    from b(1) have "ce_value e \<notin> ce_value ` set full"
      using ne by (auto simp: map_has_def foldl_keys)
    have "ce_value x \<noteq> ce_value e" if x: "x \<in> set full" for x
    proof
      assume "ce_value x = ce_value e"
      then have "ce_value e = ce_value x" by simp
      from this x have "ce_value e \<in> ce_value ` set full" by (rule image_eqI)
      with \<open>ce_value e \<notin> ce_value ` set full\<close> show False by contradiction
    qed
    then have "find (\<lambda>p. ce_value p = ce_value e) full = None"
      by (simp add: find_None_iff)
    with b(2) show ?thesis by (simp add: find_append)
  qed
  with ne show ?thesis by simp
qed

lemma projectList_appends:
  "\<exists>ys. projectList full seen = projectList full [] @ ys \<and> set ys \<subseteq> set seen \<and>
        (\<forall>e \<in> set ys. ce_value e \<notin> ce_value ` set (projectList full []))"
proof -
  let ?M1 = "foldl add_if_new [] full"
  have k1: "keyed ?M1" by (intro keyed_foldl keyed_Nil)
  from foldl_prefix [of ?M1 seen] obtain ys where
    ys: "foldl add_if_new ?M1 seen = ?M1 @ ys" "snd ` set ys \<subseteq> set seen"
      "\<forall>(k, e) \<in> set ys. \<not> map_has ?M1 k"
    by blast
  have kM: "keyed (?M1 @ ys)" using projectList_map_keyed [of full seen] ys(1) by simp
  have v1: "ce_value ` set (map_values ?M1) = fst ` set ?M1"
    using keyed_values [OF k1] by (metis list.set_map)
  have "projectList full seen = projectList full [] @ map snd ys"
    by (simp add: projectList_def ys(1) map_values_def)
  moreover have "set (map snd ys) \<subseteq> set seen" using ys(2) by simp
  moreover have "\<forall>e \<in> set (map snd ys). ce_value e \<notin> ce_value ` set (projectList full [])"
  proof
    fix e assume "e \<in> set (map snd ys)"
    then obtain k where ke: "(k, e) \<in> set ys" by auto
    from ke have "(k, e) \<in> set (?M1 @ ys)" by simp
    with kM have "ce_value e = k" by (rule keyedD [THEN conjunct1])
    moreover from ke ys(3) have "\<not> map_has ?M1 k" by auto
    ultimately show "ce_value e \<notin> ce_value ` set (projectList full [])"
      by (simp add: projectList_def v1 map_has_def)
  qed
  ultimately show ?thesis by blast
qed

lemma foldl_rebuild_values:
  "keyed m \<Longrightarrow> foldl add_if_new [] (map_values m) = m"
  using foldl_rebuild [of "[]" m] by (simp add: map_values_def)

lemma projectList_idem:
  "projectList (projectList full seen) seen = projectList full seen"
  "projectList (projectList full seen) [] = projectList full seen"
proof -
  let ?M = "foldl add_if_new (foldl add_if_new [] full) seen"
  have kM: "keyed ?M" by (rule projectList_map_keyed)
  have r: "foldl add_if_new [] (projectList full seen) = ?M"
    unfolding projectList_def by (rule foldl_rebuild_values [OF kM])
  have "\<forall>p \<in> set seen. ce_value p = [] \<or> map_has ?M (ce_value p)"
    by (auto simp: map_has_def foldl_keys)
  then have "foldl add_if_new ?M seen = ?M" by (rule foldl_noop)
  then show "projectList (projectList full seen) seen = projectList full seen"
    by (simp add: projectList_def [of "projectList full seen"] r) (simp add: projectList_def)
  show "projectList (projectList full seen) [] = projectList full seen"
    by (simp add: projectList_def [of "projectList full seen"] r) (simp add: projectList_def)
qed

text \<open>What \<open>norm\<close> returns: entries with distinct, non-empty values.\<close>

lemma norm_loop_well:
  assumes "distinct (map ce_value out)" "\<forall>e \<in> set out. ce_value e \<noteq> []"
    "seen = ce_value ` set out"
  shows "distinct (map ce_value (norm_loop strs out seen)) \<and>
         (\<forall>e \<in> set (norm_loop strs out seen). ce_value e \<noteq> [])"
  using assms
proof (induction strs arbitrary: out seen)
  case Nil
  then show ?case by simp
next
  case (Cons s strs)
  let ?v = "trim (or_empty s)"
  show ?case
  proof (cases "?v = [] \<or> ?v \<in> seen")
    case True
    with Cons.IH [OF Cons.prems] show ?thesis by (simp add: Let_def)
  next
    case False
    let ?out = "out @ [\<lparr>ce_label = ?v, ce_value = ?v, ce_color = None\<rparr>]"
    have 1: "distinct (map ce_value ?out)" using Cons.prems False by auto
    have 2: "\<forall>e \<in> set ?out. ce_value e \<noteq> []" using Cons.prems False by auto
    have 3: "insert ?v seen = ce_value ` set ?out" using Cons.prems by auto
    from Cons.IH [OF 1 2 3] False show ?thesis by (simp add: Let_def)
  qed
qed

lemma norm_well:
  "distinct (map ce_value (norm_list strs))" "\<forall>e \<in> set (norm_list strs). ce_value e \<noteq> []"
  using norm_loop_well [of "[]" "{}" strs] by (simp_all add: norm_list_def)

lemma optionsFromSelect_well:
  "distinct (map ce_value (optionsFromSelect meta name))"
  "\<forall>e \<in> set (optionsFromSelect meta name). ce_value e \<noteq> []"
proof -
  have "\<exists>strs. optionsFromSelect meta name = norm_list strs"
  proof (cases "getLeadFieldMeta meta name")
    case None
    then have "optionsFromSelect meta name = norm_list []"
      by (simp add: optionsFromSelect_def norm_list_def)
    then show ?thesis ..
  next
    case (Some f)
    show ?thesis
    proof (cases "toLowerCase (or_empty (df_fieldtype f)) = lit ''select''")
      case True
      with Some have "optionsFromSelect meta name =
          norm_list (map Some (filter (\<lambda>s. s \<noteq> [])
                                 (map trim (split_lines (or_empty (df_options f))))))"
        by (simp add: optionsFromSelect_def)
      then show ?thesis ..
    next
      case False
      with Some have "optionsFromSelect meta name = norm_list []"
        by (simp add: optionsFromSelect_def norm_list_def)
      then show ?thesis ..
    qed
  qed
  then obtain strs where s: "optionsFromSelect meta name = norm_list strs" ..
  show "distinct (map ce_value (optionsFromSelect meta name))"
    "\<forall>e \<in> set (optionsFromSelect meta name). ce_value e \<noteq> []"
    unfolding s by (rule norm_well)+
qed

lemma seenFromRows_well:
  "\<forall>e \<in> set (seenFromRows cells). ce_value e \<noteq> []"
  by (simp add: seenFromRows_def norm_well)

lemma set_entry_fold:
  "distinct (map fst m @ map ce_value xs) \<Longrightarrow> \<forall>e \<in> set xs. ce_value e \<noteq> [] \<Longrightarrow>
   foldl set_entry m xs = foldl add_if_new m xs"
proof (induction xs arbitrary: m)
  case Nil
  show ?case by simp
next
  case (Cons x xs)
  from Cons.prems have n: "\<not> map_has m (ce_value x)" "ce_value x \<noteq> []"
    by (auto simp: map_has_def)
  then have e: "set_entry m x = m @ [(ce_value x, x)]" "add_if_new m x = m @ [(ce_value x, x)]"
    by (simp_all add: set_entry_def map_set_absent add_if_new_cases)
  have "distinct (map fst (m @ [(ce_value x, x)]) @ map ce_value xs)"
    using Cons.prems by auto
  from Cons.IH [OF this] Cons.prems show ?case by (simp add: e)
qed

lemma add_if_absent_fold:
  "\<forall>e \<in> set xs. ce_value e \<noteq> [] \<Longrightarrow> foldl add_if_absent m xs = foldl add_if_new m xs"
  by (induction xs arbitrary: m) (simp_all add: add_if_absent_def add_if_new_def)

lemma loadSimpleCatalog_projectList:
  "loadSimpleCatalog meta name cells =
     projectList (optionsFromSelect meta name) (seenFromRows cells)"
  using optionsFromSelect_well [of meta name] seenFromRows_well [of cells]
  by (simp add: loadSimpleCatalog_def projectList_def set_entry_fold add_if_absent_fold)

lemma projectList_keeps_distinct:
  assumes "distinct (map ce_value xs)" "\<forall>e \<in> set xs. ce_value e \<noteq> []"
  shows "projectList xs [] = xs"
proof -
  let ?m = "map (\<lambda>e. (ce_value e, e)) xs"
  have "keyed ?m" using assms by (auto simp: keyed_def comp_def)
  then have "foldl add_if_new [] (map_values ?m) = ?m" by (rule foldl_rebuild_values)
  moreover have "map_values ?m = xs" by (simp add: map_values_def comp_def)
  ultimately show ?thesis by (simp add: projectList_def)
qed

text \<open>
  C7. Catalog merging is first-writer-wins in priority order. The merged \<open>projectList\<close>
  holds each value at most once; each of its entries is the first entry with that value
  in the authoritative catalog followed by the seen values, so label and color come from
  the highest-priority source that supplies the value; the seen values only append entries
  with new values behind the entries of the catalog; merging the result again with the
  same seen values, or with none, gives the same list in the same order.
  \<open>loadSimpleCatalog\<close> computes the same merge of the select options of the meta data
  with the values seen in the rows, and the select options come first, as they are.
\<close>

theorem catalog_merge_first_writer_wins:
  "distinct (map ce_value (projectList full seen)) \<and>
   (\<forall>e \<in> set (projectList full seen).
      find (\<lambda>p. ce_value p = ce_value e) (full @ seen) = Some e) \<and>
   (\<exists>ys. projectList full seen = projectList full [] @ ys \<and> set ys \<subseteq> set seen \<and>
         (\<forall>e \<in> set ys. ce_value e \<notin> ce_value ` set (projectList full []))) \<and>
   projectList (projectList full seen) seen = projectList full seen \<and>
   projectList (projectList full seen) [] = projectList full seen \<and>
   loadSimpleCatalog meta name cells =
     projectList (optionsFromSelect meta name) (seenFromRows cells) \<and>
   projectList (optionsFromSelect meta name) [] = optionsFromSelect meta name"
proof -
  have "\<forall>e \<in> set (projectList full seen).
      find (\<lambda>p. ce_value p = ce_value e) (full @ seen) = Some e"
    using projectList_first by blast
  moreover have "projectList (optionsFromSelect meta name) [] = optionsFromSelect meta name"
    by (intro projectList_keeps_distinct optionsFromSelect_well)
  ultimately show ?thesis
    using projectList_distinct [of full seen] projectList_appends [of full seen]
      projectList_idem [of full seen] loadSimpleCatalog_projectList [of meta name cells]
    by blast
qed

theorem catalog_merge_first_writer_wins_witness:
  "projectList
     [\<lparr>ce_label = lit ''Alpha Towers'', ce_value = lit ''P1'', ce_color = None\<rparr>]
     [\<lparr>ce_label = lit ''P1'', ce_value = lit ''P1'', ce_color = None\<rparr>,
      \<lparr>ce_label = lit ''P2'', ce_value = lit ''P2'', ce_color = None\<rparr>]
   = [\<lparr>ce_label = lit ''Alpha Towers'', ce_value = lit ''P1'', ce_color = None\<rparr>,
      \<lparr>ce_label = lit ''P2'', ce_value = lit ''P2'', ce_color = None\<rparr>]
   \<and> find (\<lambda>p. ce_value p = lit ''P1'')
        ([\<lparr>ce_label = lit ''Alpha Towers'', ce_value = lit ''P1'', ce_color = None\<rparr>] @
         [\<lparr>ce_label = lit ''P1'', ce_value = lit ''P1'', ce_color = None\<rparr>,
          \<lparr>ce_label = lit ''P2'', ce_value = lit ''P2'', ce_color = None\<rparr>])
      = Some \<lparr>ce_label = lit ''Alpha Towers'', ce_value = lit ''P1'', ce_color = None\<rparr>"
proof -
  let ?full = "[\<lparr>ce_label = lit ''Alpha Towers'', ce_value = lit ''P1'', ce_color = None\<rparr>]"
  let ?seen = "[\<lparr>ce_label = lit ''P1'', ce_value = lit ''P1'', ce_color = None\<rparr>,
      \<lparr>ce_label = lit ''P2'', ce_value = lit ''P2'', ce_color = None\<rparr>]"
  let ?e = "\<lparr>ce_label = lit ''Alpha Towers'', ce_value = lit ''P1'', ce_color = None\<rparr>"
  have r: "projectList ?full ?seen =
      [?e, \<lparr>ce_label = lit ''P2'', ce_value = lit ''P2'', ce_color = None\<rparr>]"
    by (simp add: projectList_def add_if_new_def map_has_def map_values_def lit_def)
  then have m: "?e \<in> set (projectList ?full ?seen)" by simp
  from catalog_merge_first_writer_wins [of ?full ?seen "[]" "[]" "[]"]
  have "\<forall>e \<in> set (projectList ?full ?seen).
      find (\<lambda>p. ce_value p = ce_value e) (?full @ ?seen) = Some e"
    by blast
  from this m have "find (\<lambda>p. ce_value p = ce_value ?e) (?full @ ?seen) = Some ?e"
    by (rule bspec)
  with r show ?thesis by simp
qed

section \<open>The delayed-flag map\<close>

lemma unique_loop_set: "set (unique_loop xs out) = set xs \<union> set out"
  by (induction xs arbitrary: out) auto

lemma unique_nonempty: "names \<noteq> [] \<Longrightarrow> unique names \<noteq> []"
  using unique_loop_set [of names "[]"] by (auto simp: unique_def)

lemma unique_loop_distinct: "distinct out \<Longrightarrow> distinct (unique_loop xs out)"
  by (induction xs arbitrary: out) auto

lemma unique_distinct: "distinct (unique names)"
  by (simp add: unique_def unique_loop_distinct)

lemma chunks_Nil: "chunks [] = []"
  by (subst chunks.simps) simp

lemma chunks_nonempty:
  "xs \<noteq> [] \<Longrightarrow> chunks xs = take MAX_DELAYED_BATCH xs # chunks (drop MAX_DELAYED_BATCH xs)"
  by (subst chunks.simps) simp

lemma chunks_concat: "concat (chunks xs) = xs"
proof (induction xs rule: chunks.induct)
  case (1 xs)
  show ?case
  proof (cases "xs = []")
    case True
    then show ?thesis by (simp add: chunks_Nil)
  next
    case False
    with 1 show ?thesis by (simp add: chunks_nonempty)
  qed
qed

lemma chunks_length: "c \<in> set (chunks xs) \<Longrightarrow> c \<noteq> [] \<and> length c \<le> MAX_DELAYED_BATCH"
proof (induction xs rule: chunks.induct)
  case (1 xs)
  show ?case
  proof (cases "xs = []")
    case True
    with 1 show ?thesis by (simp add: chunks_Nil)
  next
    case False
    with 1 show ?thesis
      by (auto simp: chunks_nonempty MAX_DELAYED_BATCH_def)
  qed
qed

lemma fetch_chunks_all:
  "\<forall>c \<in> set cs. call c \<noteq> None \<Longrightarrow>
   fetch_chunks call cs fresh = (Some (foldl (\<lambda>m c. assign m (the (call c))) fresh cs), cs)"
  by (induction cs arbitrary: fresh) (auto split: option.splits)

lemma fetch_chunks_rejected:
  "\<exists>c \<in> set cs. call c = None \<Longrightarrow> fst (fetch_chunks call cs fresh) = None"
proof (induction cs arbitrary: fresh)
  case Nil
  then show ?case by simp
next
  case (Cons a cs)
  show ?case
  proof (cases "call a")
    case None
    then show ?thesis by simp
  next
    case (Some m)
    with Cons.prems have "\<exists>c \<in> set cs. call c = None" by auto
    from Cons.IH [OF this, of "assign fresh m"] Some show ?thesis
      by (simp add: split_def)
  qed
qed

lemma fetch_chunks_first:
  "cs \<noteq> [] \<Longrightarrow> snd (fetch_chunks call cs fresh) \<noteq> [] \<and>
                hd (snd (fetch_chunks call cs fresh)) = hd cs"
  by (cases cs) (auto split: option.splits prod.splits)

lemma delayedMapRefresh_unfold:
  "names \<noteq> [] \<Longrightarrow>
   delayedMapRefresh call names st =
     (let shown = (if join_bar (unique names) \<noteq> lastDelayedNamesKey st then []
                   else delayedMap st);
          res = fetch_chunks call (chunks (unique names)) []
      in case fst res of
           Some freshMap \<Rightarrow>
             \<lparr>final = \<lparr>lastDelayedNamesKey = join_bar (unique names), delayedMap = freshMap\<rparr>,
              during = shown, looked_up = snd res\<rparr>
         | None \<Rightarrow>
             \<lparr>final = \<lparr>lastDelayedNamesKey = lastDelayedNamesKey st, delayedMap = []\<rparr>,
              during = shown, looked_up = snd res\<rparr>)"
  by (simp add: delayedMapRefresh_def Let_def split_def)

text \<open>
  C8 (as the claim states it, refuted). The visible names are the same as at the last
  successful fetch, so the cache key is unchanged; the refresh still calls the batch
  lookup for them, and the cached map is replaced by the answer.
\<close>

theorem delayedMapRefresh_unchanged_counterexample:
  "join_bar (unique [lit ''LEAD-1''])
     = lastDelayedNamesKey \<lparr>lastDelayedNamesKey = lit ''LEAD-1'',
                            delayedMap = [(lit ''LEAD-1'', False)]\<rparr> \<and>
   delayedMapRefresh all_delayed [lit ''LEAD-1'']
     \<lparr>lastDelayedNamesKey = lit ''LEAD-1'', delayedMap = [(lit ''LEAD-1'', False)]\<rparr>
     = \<lparr>final = \<lparr>lastDelayedNamesKey = lit ''LEAD-1'',
                    delayedMap = [(lit ''LEAD-1'', True)]\<rparr>,
        during = [(lit ''LEAD-1'', False)],
        looked_up = [[lit ''LEAD-1'']]\<rparr>"
proof -
  have u: "unique [lit ''LEAD-1''] = [lit ''LEAD-1'']" by (simp add: unique_def)
  have c: "chunks [lit ''LEAD-1''] = [[lit ''LEAD-1'']]"
    by (simp add: chunks_nonempty chunks_Nil MAX_DELAYED_BATCH_def)
  show ?thesis
    by (simp add: delayedMapRefresh_unfold u c all_delayed_def)
qed

text \<open>
  C8 (amended). For a non-empty list of visible names the refresh is never skipped. An
  unchanged cache key (the join of the names without repetitions, in their order of
  appearance) only means that the cached map stays in place while the calls are under
  way; with a changed key the map is cleared first. The batch lookup is called for the
  first 200 names in any case; when no call is rejected it is called for every chunk of at
  most 200 names, the map becomes the merged answers and the key is stored; when a call
  is rejected the map is cleared and the key stays what it was.
\<close>

theorem delayedMapRefresh_always_fetches:
  assumes "names \<noteq> []"
  shows "during (delayedMapRefresh call names st) =
           (if join_bar (unique names) = lastDelayedNamesKey st then delayedMap st
            else [])
       \<and> looked_up (delayedMapRefresh call names st) \<noteq> []
       \<and> hd (looked_up (delayedMapRefresh call names st)) = take 200 (unique names)
       \<and> ((\<forall>c \<in> set (chunks (unique names)). call c \<noteq> None) \<longrightarrow>
            looked_up (delayedMapRefresh call names st) = chunks (unique names) \<and>
            final (delayedMapRefresh call names st) =
              \<lparr>lastDelayedNamesKey = join_bar (unique names),
               delayedMap = foldl (\<lambda>m c. assign m (the (call c))) [] (chunks (unique names))\<rparr>)
       \<and> ((\<exists>c \<in> set (chunks (unique names)). call c = None) \<longrightarrow>
            final (delayedMapRefresh call names st) =
              \<lparr>lastDelayedNamesKey = lastDelayedNamesKey st, delayedMap = []\<rparr>)
       \<and> concat (chunks (unique names)) = unique names
       \<and> (\<forall>c \<in> set (chunks (unique names)). length c \<le> 200)"
proof -
  let ?cs = "chunks (unique names)"
  let ?r = "delayedMapRefresh call names st"
  let ?res = "fetch_chunks call ?cs []"
  have une: "unique names \<noteq> []" using assms by (rule unique_nonempty)
  then have cs: "?cs = take 200 (unique names) # chunks (drop 200 (unique names))"
    using chunks_nonempty [of "unique names"] by (simp add: MAX_DELAYED_BATCH_def)
  then have csne: "?cs \<noteq> []" by simp
  have lu: "looked_up ?r = snd ?res"
    by (simp add: delayedMapRefresh_unfold [OF assms] Let_def split: option.splits)
  have 1: "during ?r = (if join_bar (unique names) = lastDelayedNamesKey st then delayedMap st
            else [])"
    by (simp add: delayedMapRefresh_unfold [OF assms] Let_def split: option.splits)
  have 2: "looked_up ?r \<noteq> []" "hd (looked_up ?r) = take 200 (unique names)"
    using fetch_chunks_first [OF csne, of call "[]"] unfolding lu by (simp_all add: cs)
  have 3: "looked_up ?r = ?cs \<and> final ?r =
              \<lparr>lastDelayedNamesKey = join_bar (unique names),
               delayedMap = foldl (\<lambda>m c. assign m (the (call c))) [] ?cs\<rparr>"
    if "\<forall>c \<in> set ?cs. call c \<noteq> None"
    using fetch_chunks_all [OF that, of "[]"]
    by (simp add: delayedMapRefresh_unfold [OF assms] Let_def)
  have 4: "final ?r = \<lparr>lastDelayedNamesKey = lastDelayedNamesKey st, delayedMap = []\<rparr>"
    if "\<exists>c \<in> set ?cs. call c = None"
    using fetch_chunks_rejected [OF that, of "[]"]
    by (simp add: delayedMapRefresh_unfold [OF assms] Let_def)
  have 5: "\<forall>c \<in> set ?cs. length c \<le> 200"
    using chunks_length [of _ "unique names"] by (auto simp: MAX_DELAYED_BATCH_def)
  from 1 2 3 4 5 chunks_concat [of "unique names"] show ?thesis by blast
qed

theorem delayedMapRefresh_always_fetches_witness:
  "looked_up (delayedMapRefresh all_delayed [lit ''L1'', lit ''L2'', lit ''L1'']
                \<lparr>lastDelayedNamesKey = lit ''L1|L2'', delayedMap = []\<rparr>)
     = [[lit ''L1'', lit ''L2'']] \<and>
   final (delayedMapRefresh all_delayed [lit ''L1'', lit ''L2'', lit ''L1'']
                \<lparr>lastDelayedNamesKey = lit ''L1|L2'', delayedMap = []\<rparr>)
     = \<lparr>lastDelayedNamesKey = lit ''L1|L2'',
        delayedMap = [(lit ''L1'', True), (lit ''L2'', True)]\<rparr>"
proof -
  let ?names = "[lit ''L1'', lit ''L2'', lit ''L1'']"
  have n: "?names \<noteq> []" by simp
  have u: "unique ?names = [lit ''L1'', lit ''L2'']" by (simp add: unique_def lit_def)
  have c: "chunks [lit ''L1'', lit ''L2''] = [[lit ''L1'', lit ''L2'']]"
    by (simp add: chunks_nonempty chunks_Nil MAX_DELAYED_BATCH_def)
  have a: "\<forall>c \<in> set (chunks (unique ?names)). all_delayed c \<noteq> None"
    by (simp add: all_delayed_def)
  have j: "join_bar [lit ''L1'', lit ''L2''] = lit ''L1|L2''" by (simp add: lit_def)
  have m: "assign [] (the (all_delayed [lit ''L1'', lit ''L2'']))
             = [(lit ''L1'', True), (lit ''L2'', True)]"
    by (simp add: all_delayed_def lit_def)
  from delayedMapRefresh_always_fetches [OF n, of all_delayed] a
  show ?thesis unfolding u c j by (simp add: m)
qed

lemma key_depends_on_order:
  "join_bar (unique [lit ''B'', lit ''A'']) \<noteq> join_bar (unique [lit ''A'', lit ''B''])"
  by (simp add: unique_def lit_def)

section \<open>The cell \<open>_assign\<close>\<close>

lemma JSON_parse_user_id: "JSON_parse (lit ''admin@example.com'') = Throws SyntaxError"
  by code_simp

lemma JSON_parse_empty_array: "JSON_parse (lit ''[]'') = Returns (JArr [])"
  by code_simp

lemma JSON_parse_null: "JSON_parse (lit ''null'') = Returns JNull"
  by code_simp

lemma JSON_parse_users:
  "JSON_parse (91 # 34 # lit ''a@b.c'' @ 34 # 44 # 32 # 34 # lit ''d@e.f'' @ [34, 93])
     = Returns (JArr [JStr (lit ''a@b.c''), JStr (lit ''d@e.f'')])"
  by code_simp

text \<open>
  A missing or empty \<open>_assign\<close> gives the empty list: the parse is given \<open>'[]'\<close> then.
\<close>

lemma assign_cell_missing:
  "assign_cell getUser Undefined = Returns []"
  "assign_cell getUser Null = Returns []"
  "assign_cell getUser (Text []) = Returns []"
  by (simp_all add: assign_cell_def JSON_parse_empty_array)

lemma assign_cell_users:
  "assign_cell getUser (Text ([91, 34] @ lit ''a@b.c'' @ [34, 44, 32, 34] @ lit ''d@e.f'' @ [34, 93]))
     = Returns [\<lparr>av_name = JStr (lit ''a@b.c''),
                  av_image = user_image (getUser (JStr (lit ''a@b.c''))),
                  av_label = full_name (getUser (JStr (lit ''a@b.c'')))\<rparr>,
                \<lparr>av_name = JStr (lit ''d@e.f''),
                  av_image = user_image (getUser (JStr (lit ''d@e.f''))),
                  av_label = full_name (getUser (JStr (lit ''d@e.f'')))\<rparr>]"
  by (simp add: assign_cell_def JSON_parse_users)

text \<open>
  A valid JSON text that is not an array makes \<open>map\<close> fail.
\<close>

lemma assign_cell_not_an_array:
  "assign_cell getUser (Text (lit ''null'')) = Throws TypeError"
proof -
  have "truthy_text (Text (lit ''null''))" by (simp add: lit_def)
  then show ?thesis by (simp add: assign_cell_def JSON_parse_null)
qed

text \<open>
  C9 (the code at the failing input). A lead row whose \<open>_assign\<close> is the bare user id
  \<open>admin@example.com\<close>, which is not JSON: \<open>JSON.parse\<close> throws a \<open>SyntaxError\<close>, nothing
  catches it, and the shaping of the row throws instead of giving the empty list.
\<close>

theorem assign_cell_throws_on_invalid_json:
  "assign_cell getUser (Text (lit ''admin@example.com'')) = Throws SyntaxError"
proof -
  have "truthy_text (Text (lit ''admin@example.com''))" by (simp add: lit_def)
  then show ?thesis by (simp add: assign_cell_def JSON_parse_user_id)
qed

end
